theory Spec2Isabelle
  imports Main "HOL-Library.Word"
begin

section \<open>Late GC frame lowering: the data model\<close>

text \<open>
  A shallow embedding of \<^verbatim>\<open>src/llvm-late-gc-lowering.cpp\<close>. IR objects
  (values, instructions, basic blocks) are identified by natural numbers, standing for
  the pointers the C++ code uses as identities. Every \<^verbatim>\<open>assert\<close>, every
  \<^verbatim>\<open>abort()\<close> and every out-of-range index into a vector is an error value:
  functions that can fail return \<open>error + 'a\<close>, with \<open>Inl\<close> the error.
\<close>

type_synonym Value = nat
type_synonym Instruction = nat
type_synonym BasicBlock = nat

datatype error =
    AssertionFailed string  \<comment> \<open>a failed \<^verbatim>\<open>assert\<close>, with its text\<close>
  | OutOfBounds             \<comment> \<open>an index past the end of a vector or BitVector\<close>
  | OutOfRange              \<comment> \<open>\<^verbatim>\<open>std::map::at\<close> on a missing key\<close>
  | NullPointer             \<comment> \<open>a null pointer dereferenced\<close>
  | Abort                   \<comment> \<open>\<^verbatim>\<open>abort()\<close>\<close>

subsection \<open>llvm::BitVector\<close>

text \<open>
  A BitVector is a sequence of bits with a size; the list's length is \<^verbatim>\<open>size()\<close>.
  The operators follow LLVM's: \<^verbatim>\<open>|=\<close> grows the left side to the size of the right
  one, \<^verbatim>\<open>&=\<close> keeps the size of the left side and clears what the right side
  does not have, \<^verbatim>\<open>flip\<close> complements the bits below the size, and
  \<^verbatim>\<open>==\<close> compares the set bits, whatever the sizes.
\<close>

type_synonym BitVector = "bool list"

definition bits :: "BitVector \<Rightarrow> nat set" where
  "bits BV = {i. i < length BV \<and> BV ! i}"

definition bv_resize :: "nat \<Rightarrow> BitVector \<Rightarrow> BitVector" where
  "bv_resize N BV = take N BV @ replicate (N - length BV) False"

definition bv_or :: "BitVector \<Rightarrow> BitVector \<Rightarrow> BitVector" where
  "bv_or A B =
     map2 (\<or>) (bv_resize (max (length A) (length B)) A)
               (bv_resize (max (length A) (length B)) B)"

definition bv_and :: "BitVector \<Rightarrow> BitVector \<Rightarrow> BitVector" where
  "bv_and A B = map2 (\<and>) A (bv_resize (length A) B)"

definition bv_flip :: "BitVector \<Rightarrow> BitVector" where
  "bv_flip A = map Not A"

definition bv_reset :: "BitVector \<Rightarrow> BitVector" where
  "bv_reset A = replicate (length A) False"

definition bv_eq :: "BitVector \<Rightarrow> BitVector \<Rightarrow> bool" where
  "bv_eq A B =
     (bv_resize (max (length A) (length B)) A = bv_resize (max (length A) (length B)) B)"

text \<open>\<^verbatim>\<open>find_first()\<close> and \<^verbatim>\<open>find_next(Prev)\<close>: the index of the first set
  bit (after \<open>Prev\<close>), or \<open>-1\<close>.\<close>

definition find_from :: "BitVector \<Rightarrow> nat \<Rightarrow> int" where
  "find_from BV k = (case filter (\<lambda>i. BV ! i) [k..<length BV] of [] \<Rightarrow> -1 | i # _ \<Rightarrow> int i)"

definition find_first :: "BitVector \<Rightarrow> int" where
  "find_first BV = find_from BV 0"

definition find_next :: "BitVector \<Rightarrow> nat \<Rightarrow> int" where
  "find_next BV Prev = find_from BV (Suc Prev)"

text \<open>The conversion of an \<^verbatim>\<open>int\<close> to \<^verbatim>\<open>unsigned\<close> (32 bits), as at the
  calls \<^verbatim>\<open>HasBitSet(BV, Num)\<close> and \<^verbatim>\<open>BV[Num]\<close> with an \<^verbatim>\<open>int Num\<close>.\<close>

definition as_unsigned :: "int \<Rightarrow> nat" where
  "as_unsigned i = nat (i mod 2 ^ 32)"

definition HasBitSet :: "BitVector \<Rightarrow> nat \<Rightarrow> bool" where
  "HasBitSet BV Bit = (Bit < length BV \<and> BV ! Bit)"

subsection \<open>BBState and State\<close>

record BBState =
  Defs :: BitVector
  PhiOuts :: BitVector
  UpExposedUsesUnrooted :: BitVector
  UpExposedUses :: BitVector
  DownExposedUnrooted :: BitVector
  LiveIn :: BitVector
  LiveOut :: BitVector
  UnrootedIn :: BitVector
  UnrootedOut :: BitVector
  Safepoints :: "int list"
  TopmostSafepoint :: int
  HasSafepoint :: bool
  Done :: bool

text \<open>A default-constructed BBState, as \<^verbatim>\<open>S.BBStates[BB]\<close> creates it on first use.\<close>

definition BBState0 :: BBState where
  "BBState0 = \<lparr> Defs = [], PhiOuts = [], UpExposedUsesUnrooted = [], UpExposedUses = [],
     DownExposedUnrooted = [], LiveIn = [], LiveOut = [], UnrootedIn = [], UnrootedOut = [],
     Safepoints = [], TopmostSafepoint = -1, HasSafepoint = False, Done = False \<rparr>"

text \<open>
  The maps of \<^verbatim>\<open>State\<close> that the pass only looks up are partial functions;
  \<^verbatim>\<open>SafepointNumbering\<close>, which it iterates, is an association list in the map's
  iteration order (the order of the instruction pointers, which the source does not
  control). \<^verbatim>\<open>BBStates\<close> is total: \<^verbatim>\<open>operator[]\<close> creates a missing entry.
\<close>

record State =
  MaxPtrNumber :: int
  MaxSafepointNumber :: int
  AllPtrNumbering :: "Value \<rightharpoonup> int"
  AllVectorNumbering :: "Value \<rightharpoonup> int list"
  PtrNumbering :: "Value \<rightharpoonup> int"
  ReversePtrNumbering :: "int \<rightharpoonup> Value"
  Neighbors :: "int list list"
  BBStates :: "BasicBlock \<Rightarrow> BBState"
  LoadRefinements :: "int \<rightharpoonup> int"
  SafepointNumbering :: "(Instruction \<times> int) list"
  ReverseSafepointNumbering :: "Instruction list"
  ReturnsTwice :: "Instruction list"
  LiveSets :: "BitVector list"
  LiveIfLiveOut :: "int list list"
  Allocas :: "Value list"

definition State0 :: State where
  "State0 = \<lparr> MaxPtrNumber = -1, MaxSafepointNumber = -1, AllPtrNumbering = Map.empty,
     AllVectorNumbering = Map.empty, PtrNumbering = Map.empty,
     ReversePtrNumbering = Map.empty, Neighbors = [], BBStates = (\<lambda>_. BBState0),
     LoadRefinements = Map.empty, SafepointNumbering = [], ReverseSafepointNumbering = [],
     ReturnsTwice = [], LiveSets = [], LiveIfLiveOut = [], Allocas = [] \<rparr>"

section \<open>ComputeLiveSets: the live set of each safepoint\<close>

text \<open>The loop over \<^verbatim>\<open>S.LiveIfLiveOut[idx]\<close>: \<^verbatim>\<open>LS[Live] = 1\<close> past the size
  of \<open>LS\<close> is out of bounds.\<close>

fun AddLiveIfLiveOut :: "BitVector \<Rightarrow> int list \<Rightarrow> BitVector \<Rightarrow> error + BitVector" where
  "AddLiveIfLiveOut LO [] LS = Inr LS"
| "AddLiveIfLiveOut LO (Live # rest) LS =
     (if HasBitSet LO (as_unsigned Live)
      then (if as_unsigned Live < length LS
            then AddLiveIfLiveOut LO rest (LS[as_unsigned Live := True])
            else Inl OutOfBounds)
      else AddLiveIfLiveOut LO rest LS)"

text \<open>The body of the refinement loop at the set bit \<open>Idx\<close>.\<close>

definition ApplyRefinement :: "(int \<rightharpoonup> int) \<Rightarrow> nat \<Rightarrow> BitVector \<Rightarrow> BitVector" where
  "ApplyRefinement R Idx LS =
     (case R (int Idx) of
        None \<Rightarrow> LS
      | Some RefinedPtr \<Rightarrow>
          if RefinedPtr = -1 \<or> HasBitSet LS (as_unsigned RefinedPtr) then LS[Idx := False] else LS)"

lemma find_from_cases:
  "find_from BV k = -1 \<and> (\<forall>j. k \<le> j \<and> j < length BV \<longrightarrow> \<not> BV ! j)
   \<or> (\<exists>i. find_from BV k = int i \<and> k \<le> i \<and> i < length BV \<and> BV ! i
          \<and> (\<forall>j. k \<le> j \<and> j < i \<longrightarrow> \<not> BV ! j))"
proof (cases "filter (\<lambda>i. BV ! i) [k..<length BV]")
  case Nil
  then have "\<forall>j \<in> set [k..<length BV]. \<not> BV ! j"
    by (simp add: filter_empty_conv)
  with Nil show ?thesis by (simp add: find_from_def)
next
  case (Cons i rest)
  then obtain us vs where split: "[k..<length BV] = us @ i # vs"
      and us: "\<forall>u \<in> set us. \<not> BV ! u" and i: "BV ! i"
    by (auto simp: filter_eq_Cons_iff)
  have mem: "i \<in> set [k..<length BV]" using split by simp
  have "\<forall>j. k \<le> j \<and> j < i \<longrightarrow> \<not> BV ! j"
  proof (intro allI impI)
    fix j assume j: "k \<le> j \<and> j < i"
    with mem have "j \<in> set (us @ i # vs)" unfolding split [symmetric] by simp
    then have "j \<in> set us \<or> j = i \<or> j \<in> set vs" by auto
    moreover have "sorted (us @ i # vs)" using split sorted_upt [of k "length BV"] by simp
    then have "\<forall>v \<in> set vs. i \<le> v" by (simp add: sorted_append)
    ultimately have "j \<in> set us" using j by auto
    with us show "\<not> BV ! j" by simp
  qed
  with Cons mem i show ?thesis by (auto simp: find_from_def)
qed

lemma find_next_less:
  "find_next BV Prev = int j \<Longrightarrow> Prev < j \<and> j < length BV"
  using find_from_cases [of BV "Suc Prev"] by (auto simp: find_next_def)

lemma length_ApplyRefinement [simp]: "length (ApplyRefinement R Idx LS) = length LS"
  by (simp add: ApplyRefinement_def split: option.splits)

text \<open>The loop \<^verbatim>\<open>for (Idx = LS.find_first(); Idx >= 0; Idx = LS.find_next(Idx))\<close>,
  which reads and changes \<open>LS\<close> as it goes.\<close>

function ApplyRefinements_loop :: "(int \<rightharpoonup> int) \<Rightarrow> int \<Rightarrow> BitVector \<Rightarrow> BitVector" where
  "ApplyRefinements_loop R Idx LS =
     (if Idx < 0 then LS
      else ApplyRefinements_loop R
             (find_next (ApplyRefinement R (nat Idx) LS) (nat Idx))
             (ApplyRefinement R (nat Idx) LS))"
  by pat_completeness auto
termination
proof (relation "measure (\<lambda>(R, Idx, LS). if Idx < 0 then 0 else Suc (length LS - nat Idx))")
  show "wf (measure (\<lambda>(R, Idx, LS). if Idx < 0 then 0 else Suc (length LS - nat Idx)))"
    by simp
next
  fix R :: "int \<rightharpoonup> int" and Idx :: int and LS :: BitVector
  assume nonneg: "\<not> Idx < 0"
  let ?LS = "ApplyRefinement R (nat Idx) LS"
  let ?n = "find_next ?LS (nat Idx)"
  show "((R, ?n, ?LS), (R, Idx, LS))
        \<in> measure (\<lambda>(R, Idx, LS). if Idx < 0 then 0 else Suc (length LS - nat Idx))"
  proof (cases "?n < 0")
    case True
    with nonneg show ?thesis by simp
  next
    case False
    then obtain j where j: "?n = int j" by (metis int_nat_eq not_less)
    from find_next_less [OF j] have "nat Idx < j" "j < length LS" by simp_all
    with nonneg j show ?thesis by simp
  qed
qed

declare ApplyRefinements_loop.simps [simp del]

definition ApplyRefinements :: "(int \<rightharpoonup> int) \<Rightarrow> BitVector \<Rightarrow> BitVector" where
  "ApplyRefinements R LS = ApplyRefinements_loop R (find_first LS) LS"

text \<open>Indexing a \<^verbatim>\<open>std::vector\<close> with an \<^verbatim>\<open>int\<close>.\<close>

definition vec_at :: "'a list \<Rightarrow> int \<Rightarrow> error + 'a" where
  "vec_at xs i = (if 0 \<le> i \<and> nat i < length xs then Inr (xs ! nat i) else Inl OutOfBounds)"

text \<open>The live set of the safepoint \<open>idx\<close> of block \<open>BB\<close> after the first two steps
  (\<^verbatim>\<open>LS |= LiveAcross\<close> and the \<^verbatim>\<open>LiveIfLiveOut\<close> loop), and after the
  refinements.\<close>

definition LiveSetBeforeRefinement :: "State \<Rightarrow> BasicBlock \<Rightarrow> int \<Rightarrow> error + BitVector" where
  "LiveSetBeforeRefinement S BB idx =
     (case vec_at (LiveSets S) idx of
        Inl e \<Rightarrow> Inl e
      | Inr LS \<Rightarrow>
         (case vec_at (LiveIfLiveOut S) idx of
            Inl e \<Rightarrow> Inl e
          | Inr LiveIf \<Rightarrow>
              AddLiveIfLiveOut (LiveOut (BBStates S BB)) LiveIf
                (bv_or LS (bv_and (LiveIn (BBStates S BB)) (LiveOut (BBStates S BB))))))"

definition ComputeLiveSet :: "State \<Rightarrow> BasicBlock \<Rightarrow> int \<Rightarrow> error + BitVector" where
  "ComputeLiveSet S BB idx =
     (case LiveSetBeforeRefinement S BB idx of
        Inl e \<Rightarrow> Inl e
      | Inr LS \<Rightarrow> Inr (ApplyRefinements (LoadRefinements S) LS))"

text \<open>The first loop of ComputeLiveSets, over \<^verbatim>\<open>S.SafepointNumbering\<close>;
  \<open>getParent\<close> gives the block of an instruction.\<close>

fun ComputeLiveSets_safepoints ::
  "(Instruction \<Rightarrow> BasicBlock) \<Rightarrow> (Instruction \<times> int) list \<Rightarrow> State \<Rightarrow> error + State" where
  "ComputeLiveSets_safepoints getParent [] S = Inr S"
| "ComputeLiveSets_safepoints getParent ((Safepoint, idx) # rest) S =
     (case ComputeLiveSet S (getParent Safepoint) idx of
        Inl e \<Rightarrow> Inl e
      | Inr LS \<Rightarrow>
          ComputeLiveSets_safepoints getParent rest
            (S\<lparr>LiveSets := (LiveSets S)[nat idx := LS]\<rparr>))"

text \<open>The interference graph: for the identifier \<open>i\<close>, the union of the live sets
  that hold \<open>i\<close>.\<close>

fun CollectNeighborBits ::
  "BitVector list \<Rightarrow> nat \<Rightarrow> (Instruction \<times> int) list \<Rightarrow> BitVector \<Rightarrow> error + BitVector" where
  "CollectNeighborBits LSs i [] NeighborBits = Inr NeighborBits"
| "CollectNeighborBits LSs i ((Safepoint, idx) # rest) NeighborBits =
     (case vec_at LSs idx of
        Inl e \<Rightarrow> Inl e
      | Inr LS \<Rightarrow>
          if length LS \<le> i \<or> \<not> LS ! i
          then CollectNeighborBits LSs i rest NeighborBits
          else CollectNeighborBits LSs i rest (bv_or NeighborBits LS))"

text \<open>The set bits of a BitVector in increasing order, as a
  \<^verbatim>\<open>find_first\<close>/\<^verbatim>\<open>find_next\<close> loop visits them when its body leaves the
  vector alone.\<close>

definition set_bits :: "BitVector \<Rightarrow> int list" where
  "set_bits BV = map int (filter (\<lambda>i. BV ! i) [0..<length BV])"

fun ComputeInterference_loop :: "nat list \<Rightarrow> State \<Rightarrow> error + State" where
  "ComputeInterference_loop [] S = Inr S"
| "ComputeInterference_loop (i # rest) S =
     (case CollectNeighborBits (LiveSets S) i (SafepointNumbering S)
             (replicate (nat (MaxPtrNumber S)) False) of
        Inl e \<Rightarrow> Inl e
      | Inr NeighborBits \<Rightarrow>
          ComputeInterference_loop rest (S\<lparr>Neighbors := Neighbors S @ [set_bits NeighborBits]\<rparr>))"

definition ComputeLiveSets :: "(Instruction \<Rightarrow> BasicBlock) \<Rightarrow> State \<Rightarrow> error + State" where
  "ComputeLiveSets getParent S =
     (case ComputeLiveSets_safepoints getParent (SafepointNumbering S) S of
        Inl e \<Rightarrow> Inl e
      | Inr S1 \<Rightarrow> ComputeInterference_loop [0..<nat (MaxPtrNumber S1 + 1)] S1)"

section \<open>ComputeLiveness: the dataflow\<close>

text \<open>
  What the pass reads of the control flow of the function: its blocks in layout order
  (the order of \<^verbatim>\<open>for (BasicBlock &BB : F)\<close>), the blocks in the order of LLVM's
  \<^verbatim>\<open>ReversePostOrderTraversal\<close> (the blocks reachable from the entry block, each
  once), the successors of each block, and whether its terminator is a return.
\<close>

record Function =
  Blocks :: "BasicBlock list"
  RPOT :: "BasicBlock list"
  successors :: "BasicBlock \<Rightarrow> BasicBlock list"
  IsReturnBlock :: "BasicBlock \<Rightarrow> bool"

text \<open>\<^verbatim>\<open>predecessors(BB)\<close>: the blocks of the function with an edge to \<open>BB\<close>. (LLVM
  walks the uses of \<open>BB\<close>; the pass only forms unions and intersections over them.)\<close>

definition predecessors :: "Function \<Rightarrow> BasicBlock \<Rightarrow> BasicBlock list" where
  "predecessors F BB = filter (\<lambda>P. BB \<in> set (successors F P)) (Blocks F)"

text \<open>\<^verbatim>\<open>MaybeResize(BBS, Idx)\<close>, with \<open>Idx + 1\<close> computed in \<^verbatim>\<open>unsigned\<close>.\<close>

definition MaybeResize :: "BBState \<Rightarrow> nat \<Rightarrow> BBState" where
  "MaybeResize BBS Idx =
     (if length (Defs BBS) \<le> Idx
      then BBS\<lparr> Defs := bv_resize ((Idx + 1) mod 2 ^ 32) (Defs BBS),
                UpExposedUses := bv_resize ((Idx + 1) mod 2 ^ 32) (UpExposedUses BBS),
                UpExposedUsesUnrooted := bv_resize ((Idx + 1) mod 2 ^ 32) (UpExposedUsesUnrooted BBS),
                DownExposedUnrooted := bv_resize ((Idx + 1) mod 2 ^ 32) (DownExposedUnrooted BBS),
                PhiOuts := bv_resize ((Idx + 1) mod 2 ^ 32) (PhiOuts BBS) \<rparr>
      else BBS)"

text \<open>The three updates of the loop body, for the block \<open>BB\<close>. The call
  \<^verbatim>\<open>MaybeResize(BBS, BBS.LiveOut.size() - 1)\<close> computes its index in
  \<^verbatim>\<open>unsigned\<close>: it wraps around for an empty vector.\<close>

definition NewLiveOut :: "Function \<Rightarrow> State \<Rightarrow> BasicBlock \<Rightarrow> BitVector" where
  "NewLiveOut F S BB =
     fold (\<lambda>Succ New. bv_or New (LiveIn (BBStates S Succ))) (successors F BB)
       (PhiOuts (BBStates S BB))"

definition update_LiveOut :: "Function \<Rightarrow> BasicBlock \<Rightarrow> State \<times> bool \<Rightarrow> State \<times> bool" where
  "update_LiveOut F BB = (\<lambda>(S, AnyChanged).
     if \<not> bv_eq (NewLiveOut F S BB) (LiveOut (BBStates S BB))
     then (S\<lparr>BBStates := (BBStates S)(BB :=
              MaybeResize ((BBStates S BB)\<lparr>LiveOut := NewLiveOut F S BB\<rparr>)
                (as_unsigned (int (length (NewLiveOut F S BB)) - 1)))\<rparr>, True)
     else (S, AnyChanged))"

definition NewLiveIn :: "BBState \<Rightarrow> BitVector" where
  "NewLiveIn BBS =
     bv_or (bv_or (bv_and (LiveOut BBS) (bv_flip (Defs BBS))) (UpExposedUses BBS))
       (UpExposedUsesUnrooted BBS)"

definition update_LiveIn :: "BasicBlock \<Rightarrow> State \<times> bool \<Rightarrow> State \<times> bool" where
  "update_LiveIn BB = (\<lambda>(S, AnyChanged).
     if \<not> bv_eq (NewLiveIn (BBStates S BB)) (LiveIn (BBStates S BB))
     then (S\<lparr>BBStates := (BBStates S)(BB :=
              (BBStates S BB)\<lparr>LiveIn := NewLiveIn (BBStates S BB)\<rparr>)\<rparr>, True)
     else (S, AnyChanged))"

definition NewUnrootedIn :: "Function \<Rightarrow> State \<Rightarrow> BasicBlock \<Rightarrow> BitVector" where
  "NewUnrootedIn F S BB =
     fold (\<lambda>Pred New. bv_or New (UnrootedOut (BBStates S Pred))) (predecessors F BB) []"

definition update_UnrootedIn :: "Function \<Rightarrow> BasicBlock \<Rightarrow> State \<times> bool \<Rightarrow> State \<times> bool" where
  "update_UnrootedIn F BB = (\<lambda>(S, AnyChanged).
     if \<not> bv_eq (NewUnrootedIn F S BB) (UnrootedIn (BBStates S BB))
     then (S\<lparr>BBStates := (BBStates S)(BB :=
              (BBStates S BB)\<lparr> UnrootedIn := NewUnrootedIn F S BB,
                 UnrootedOut :=
                   (if \<not> HasSafepoint (BBStates S BB)
                    then bv_or (UnrootedOut (BBStates S BB)) (NewUnrootedIn F S BB)
                    else UnrootedOut (BBStates S BB)) \<rparr>)\<rparr>, True)
     else (S, AnyChanged))"

definition ComputeLiveness_block :: "Function \<Rightarrow> BasicBlock \<Rightarrow> State \<times> bool \<Rightarrow> State \<times> bool" where
  "ComputeLiveness_block F BB SC = update_UnrootedIn F BB (update_LiveIn BB (update_LiveOut F BB SC))"

definition ComputeLiveness_pass :: "Function \<Rightarrow> State \<Rightarrow> State \<times> bool" where
  "ComputeLiveness_pass F S = fold (ComputeLiveness_block F) (RPOT F) (S, False)"

text \<open>The loop \<^verbatim>\<open>while (!Converged)\<close>; not returning is \<open>None\<close>.\<close>

partial_function (option) ComputeLiveness_loop :: "Function \<Rightarrow> State \<Rightarrow> State option" where
  "ComputeLiveness_loop F S =
     (case ComputeLiveness_pass F S of
        (S', AnyChanged) \<Rightarrow> if AnyChanged then ComputeLiveness_loop F S' else Some S')"

definition ComputeLiveness ::
  "Function \<Rightarrow> (Instruction \<Rightarrow> BasicBlock) \<Rightarrow> State \<Rightarrow> (error + State) option" where
  "ComputeLiveness F getParent S =
     (case ComputeLiveness_loop F S of
        None \<Rightarrow> None
      | Some S' \<Rightarrow> Some (ComputeLiveSets getParent S'))"

section \<open>ColorRoots: the coloring of the interference graph\<close>

text \<open>
  The iterator that gives the vertices of the interference graph in the order of the
  greedy coloring. \<^verbatim>\<open>Levels[w]\<close> holds the elements of weight \<open>w\<close>, a killed
  position holds \<open>-1\<close>; the weight \<^verbatim>\<open>(unsigned)-1\<close> marks an element already
  returned.
\<close>

record Element =
  weight :: nat
  pos :: nat

record PEOIterator =
  Elements :: "Element list"
  Levels :: "int list list"

text \<open>\<^verbatim>\<open>(unsigned)-1\<close>.\<close>

definition finalized :: nat where
  "finalized = 4294967295"

definition PEOIterator_init :: "int list list \<Rightarrow> PEOIterator" where
  "PEOIterator_init Ns =
     \<lparr> Elements = map (\<lambda>i. \<lparr>weight = 0, pos = i\<rparr>) [0..<length Ns],
       Levels = [map int [0..<length Ns]] \<rparr>"

text \<open>The two nested loops at the start of \<^verbatim>\<open>next()\<close>: the inner one pops
  the last level until it finds an element that is not \<open>-1\<close>, the outer one drops the
  levels that became empty.\<close>

function pop_LastLevel :: "int list \<Rightarrow> int \<times> int list" where
  "pop_LastLevel LastLevel =
     (if LastLevel = [] then (-1, LastLevel)
      else if last LastLevel \<noteq> -1 then (last LastLevel, butlast LastLevel)
      else pop_LastLevel (butlast LastLevel))"
  by pat_completeness auto
termination
  by (relation "measure length") auto

declare pop_LastLevel.simps [simp del]

lemma pop_LastLevel_length: "length (snd (pop_LastLevel L)) \<le> length L"
  by (induction L rule: pop_LastLevel.induct) (subst pop_LastLevel.simps, auto simp: le_diff_conv)

lemma pop_LastLevel_shorter: "L \<noteq> [] \<Longrightarrow> length (snd (pop_LastLevel L)) < length L"
proof -
  assume ne: "L \<noteq> []"
  then have b: "length (butlast L) < length L" by (cases L rule: rev_cases) auto
  show ?thesis
  proof (cases "last L \<noteq> -1")
    case True
    with ne b show ?thesis by (subst pop_LastLevel.simps) simp
  next
    case False
    with ne have "pop_LastLevel L = pop_LastLevel (butlast L)"
      by (subst pop_LastLevel.simps) simp
    with pop_LastLevel_length [of "butlast L"] b show ?thesis by simp
  qed
qed

function pop_Levels :: "int list list \<Rightarrow> int \<times> int list list" where
  "pop_Levels Ls =
     (if Ls = [] then (-1, Ls)
      else (case pop_LastLevel (last Ls) of
              (NextElement, LastLevel) \<Rightarrow>
                (if NextElement = -1
                 then pop_Levels (if LastLevel = [] then butlast Ls else butlast Ls @ [LastLevel])
                 else (NextElement, if LastLevel = [] then butlast Ls else butlast Ls @ [LastLevel]))))"
  by pat_completeness auto
termination
proof (relation "measure (\<lambda>Ls. sum_list (map (\<lambda>L. Suc (length L)) Ls))", goal_cases)
  case 1
  show ?case by simp
next
  case (2 Ls x y)
  let ?m = "\<lambda>Ls. sum_list (map (\<lambda>L. Suc (length L)) Ls)"
  from 2(1) have m: "?m Ls = ?m (butlast Ls) + Suc (length (last Ls))"
    by (cases Ls rule: rev_cases) simp_all
  from 2(2) have y: "y = snd (pop_LastLevel (last Ls))" by (metis snd_conv)
  show ?case
  proof (cases "y = []")
    case True
    then show ?thesis using m by simp
  next
    case False
    then have "last Ls \<noteq> []" using y by (auto simp: pop_LastLevel.simps [of "[]"])
    from pop_LastLevel_shorter [OF this] y have "length y < length (last Ls)" by simp
    with False m show ?thesis by simp
  qed
qed

declare pop_Levels.simps [simp del]

text \<open>Raising one neighbour of the element just emitted.\<close>

definition raise_Neighbor :: "int \<Rightarrow> int \<Rightarrow> PEOIterator \<Rightarrow> error + PEOIterator" where
  "raise_Neighbor NextElement Neighbor It =
     (if Neighbor = NextElement then Inr It
      else case vec_at (Elements It) Neighbor of
        Inl e \<Rightarrow> Inl e
      | Inr NElement \<Rightarrow>
          if weight NElement = finalized then Inr It
          else if \<not> (weight NElement < length (Levels It)
                     \<and> pos NElement < length (Levels It ! weight NElement))
          then Inl OutOfBounds
          else
            let Killed = (Levels It)[weight NElement :=
                            (Levels It ! weight NElement)[pos NElement := -1]];
                w = weight NElement + 1;
                Grown = (if length Killed \<le> w then Killed @ [[]] else Killed)
            in if \<not> w < length Grown then Inl OutOfBounds
               else Inr \<lparr> Elements = (Elements It)[nat Neighbor :=
                                        \<lparr>weight = w, pos = length (Grown ! w)\<rparr>],
                          Levels = Grown[w := Grown ! w @ [Neighbor]] \<rparr>)"

fun raise_Neighbors :: "int \<Rightarrow> int list \<Rightarrow> PEOIterator \<Rightarrow> error + PEOIterator" where
  "raise_Neighbors NextElement [] It = Inr It"
| "raise_Neighbors NextElement (Neighbor # rest) It =
     (case raise_Neighbor NextElement Neighbor It of
        Inl e \<Rightarrow> Inl e
      | Inr It' \<Rightarrow> raise_Neighbors NextElement rest It')"

text \<open>\<^verbatim>\<open>PEOIterator::next()\<close>: the iterator after the call and the element returned.\<close>

definition PEO_next :: "int list list \<Rightarrow> PEOIterator \<Rightarrow> error + (PEOIterator \<times> int)" where
  "PEO_next Ns It =
     (case pop_Levels (Levels It) of
        (NextElement, Ls) \<Rightarrow>
          if NextElement = -1 then Inr (It\<lparr>Levels := Ls\<rparr>, -1)
          else if \<not> (0 \<le> NextElement \<and> nat NextElement < length (Elements It))
          then Inl OutOfBounds
          else case vec_at Ns NextElement of
            Inl e \<Rightarrow> Inl e
          | Inr NextNeighbors \<Rightarrow>
             (case raise_Neighbors NextElement NextNeighbors
                     \<lparr> Elements = (Elements It)[nat NextElement :=
                          (Elements It ! nat NextElement)\<lparr>weight := finalized\<rparr>],
                       Levels = Ls \<rparr> of
                Inl e \<Rightarrow> Inl e
              | Inr It' \<Rightarrow> Inr (It', NextElement)))"

subsection \<open>ColorRoots\<close>

text \<open>The pre-assignment for one returns-twice safepoint: the loop over the set bits
  of its live set.\<close>

fun PreAssign_bits :: "int list \<Rightarrow> int list \<times> int \<Rightarrow> error + (int list \<times> int)" where
  "PreAssign_bits [] CP = Inr CP"
| "PreAssign_bits (Idx # rest) (Colors, PreAssignedColors) =
     (case vec_at Colors Idx of
        Inl e \<Rightarrow> Inl e
      | Inr c \<Rightarrow>
          if c = -1
          then PreAssign_bits rest (Colors[nat Idx := PreAssignedColors], PreAssignedColors + 1)
          else PreAssign_bits rest (Colors, PreAssignedColors))"

fun PreAssign_loop :: "State \<Rightarrow> Instruction list \<Rightarrow> int list \<times> int \<Rightarrow> error + (int list \<times> int)" where
  "PreAssign_loop S [] CP = Inr CP"
| "PreAssign_loop S (it # rest) CP =
     (case map_of (SafepointNumbering S) it of
        None \<Rightarrow> Inl OutOfRange
      | Some Num \<Rightarrow>
         (case vec_at (LiveSets S) Num of
            Inl e \<Rightarrow> Inl e
          | Inr LS \<Rightarrow>
             (case PreAssign_bits (set_bits LS) CP of
                Inl e \<Rightarrow> Inl e
              | Inr CP' \<Rightarrow> PreAssign_loop S rest CP')))"

definition PreAssign :: "State \<Rightarrow> error + (int list \<times> int)" where
  "PreAssign S = PreAssign_loop S (ReturnsTwice S) (replicate (nat (MaxPtrNumber S + 1)) (-1), 0)"

text \<open>The loop over the neighbours of the active element that marks the colors in use.\<close>

fun MarkUsedColors :: "int list \<Rightarrow> int \<Rightarrow> int list \<Rightarrow> BitVector \<Rightarrow> error + BitVector" where
  "MarkUsedColors Colors PreAssignedColors [] UsedColors = Inr UsedColors"
| "MarkUsedColors Colors PreAssignedColors (Neighbor # rest) UsedColors =
     (case vec_at Colors Neighbor of
        Inl e \<Rightarrow> Inl e
      | Inr NeighborColor \<Rightarrow>
          if NeighborColor = -1 then MarkUsedColors Colors PreAssignedColors rest UsedColors
          else if NeighborColor < PreAssignedColors
          then MarkUsedColors Colors PreAssignedColors rest UsedColors
          else if \<not> nat (NeighborColor - PreAssignedColors) < length UsedColors
          then Inl OutOfBounds
          else MarkUsedColors Colors PreAssignedColors rest
                 (UsedColors[nat (NeighborColor - PreAssignedColors) := True]))"

text \<open>The body of the greedy loop for the element \<open>ActiveElement\<close>: the colors and
  \<^verbatim>\<open>MaxAssignedColor\<close> after it.\<close>

definition ColorElement ::
  "int list list \<Rightarrow> int \<Rightarrow> int \<Rightarrow> int list \<times> int \<Rightarrow> error + (int list \<times> int)" where
  "ColorElement Ns PreAssignedColors ActiveElement = (\<lambda>(Colors, MaxAssignedColor).
     case vec_at Colors ActiveElement of
       Inl e \<Rightarrow> Inl e
     | Inr c \<Rightarrow>
        if c \<noteq> -1 then Inr (Colors, MaxAssignedColor)
        else case vec_at Ns ActiveElement of
          Inl e \<Rightarrow> Inl e
        | Inr ActiveNeighbors \<Rightarrow>
           if ActiveNeighbors = [] then Inr (Colors, MaxAssignedColor)
           else case MarkUsedColors Colors PreAssignedColors ActiveNeighbors
                       (replicate (nat (MaxAssignedColor + 2)) False) of
             Inl e \<Rightarrow> Inl e
           | Inr UsedColors \<Rightarrow>
               let NewColor = find_first (bv_flip UsedColors)
               in Inr (Colors[nat ActiveElement := NewColor + PreAssignedColors],
                       if NewColor > MaxAssignedColor then NewColor else MaxAssignedColor))"

text \<open>The loop \<^verbatim>\<open>while ((ActiveElement = Ordering.next()) != -1)\<close>.\<close>

partial_function (option) GreedyColoring ::
  "int list list \<Rightarrow> int \<Rightarrow> PEOIterator \<Rightarrow> int list \<times> int \<Rightarrow> (error + int list) option" where
  "GreedyColoring Ns PreAssignedColors Ordering CM =
     (case PEO_next Ns Ordering of
        Inl e \<Rightarrow> Some (Inl e)
      | Inr (Ordering', ActiveElement) \<Rightarrow>
          if ActiveElement = -1 then Some (Inr (fst CM))
          else case ColorElement Ns PreAssignedColors ActiveElement CM of
            Inl e \<Rightarrow> Some (Inl e)
          | Inr CM' \<Rightarrow> GreedyColoring Ns PreAssignedColors Ordering' CM')"

definition ColorRoots :: "State \<Rightarrow> (error + int list) option" where
  "ColorRoots S =
     (case PreAssign S of
        Inl e \<Rightarrow> Some (Inl e)
      | Inr (Colors, PreAssignedColors) \<Rightarrow>
          GreedyColoring (Neighbors S) PreAssignedColors (PEOIterator_init (Neighbors S))
            (Colors, -1))"

section \<open>PlaceRootsAndUpdateCalls: the frame\<close>

text \<open>
  What PlaceRootsAndUpdateCalls inserts into the function, as a list of the
  insertions it makes.
\<close>

datatype Inserted =
    FrameAlloca "32 word"
  | FrameZero "32 word"
  | PushStoreNRoots nat "32 word"
  | PushStorePrev nat
  | PushStoreTop
  | AllocaSlot Value "32 word"
  | RootStore Value "32 word" Instruction
  | PopFrame BasicBlock

text \<open>The loop that finds the largest color.\<close>

definition MaxColor_of :: "int list \<Rightarrow> int" where
  "MaxColor_of Colors = fold (\<lambda>C MaxColor. if C > MaxColor then C else MaxColor) Colors (-1)"

definition PushGCFrame :: "32 word \<Rightarrow> Inserted list" where
  "PushGCFrame NRoots = [PushStoreNRoots 0 (push_bit 1 NRoots), PushStorePrev 1, PushStoreTop]"

definition PopGCFrame :: "BasicBlock \<Rightarrow> Inserted list" where
  "PopGCFrame BB = [PopFrame BB]"

text \<open>
  \<^verbatim>\<open>AddInPredLiveOuts\<close>: the inner loop over the predecessors of the block taken
  from the work list, and the loop over the work list. The work list is a stack, its
  head the last element pushed.
\<close>

fun AddInPred_preds ::
  "State \<Rightarrow> BasicBlock list \<Rightarrow> BasicBlock list \<times> BasicBlock list \<times> BitVector \<times> bool
     \<Rightarrow> error + (BasicBlock list \<times> BasicBlock list \<times> BitVector \<times> bool)" where
  "AddInPred_preds S [] st = Inr st"
| "AddInPred_preds S (Pred # rest) (WorkList, Visited, LiveIn', First) =
     (if Pred \<in> set Visited then AddInPred_preds S rest (WorkList, Visited, LiveIn', First)
      else if \<not> HasSafepoint (BBStates S Pred)
      then AddInPred_preds S rest (Pred # WorkList, Pred # Visited, LiveIn', First)
      else case Safepoints (BBStates S Pred) of
        [] \<Rightarrow> Inl OutOfBounds
      | LastSP # _ \<Rightarrow>
         (case vec_at (LiveSets S) LastSP of
            Inl e \<Rightarrow> Inl e
          | Inr LS \<Rightarrow>
              AddInPred_preds S rest
                (WorkList, Pred # Visited,
                 if First then bv_or LiveIn' LS else bv_and LiveIn' LS, False)))"

lemma AddInPred_preds_measure:
  "AddInPred_preds S ps (WL, Vis, LI, Fi) = Inr (WL2, Vis2, LI2, Fi2) \<Longrightarrow>
   set ps \<subseteq> U \<Longrightarrow> finite U \<Longrightarrow>
   card (U - set Vis2) + length WL2 \<le> card (U - set Vis) + length WL"
proof (induction ps arbitrary: WL Vis LI Fi)
  case Nil
  then show ?case by simp
next
  case (Cons Pred rest)
  from Cons.prems(2) have P: "Pred \<in> U" and rest: "set rest \<subseteq> U" by simp_all
  show ?case
  proof (cases "Pred \<in> set Vis")
    case True
    with Cons.prems(1) have "AddInPred_preds S rest (WL, Vis, LI, Fi) = Inr (WL2, Vis2, LI2, Fi2)"
      by simp
    from Cons.IH [OF this rest Cons.prems(3)] show ?thesis .
  next
    case False
    have dec: "Suc (card (U - set (Pred # Vis))) = card (U - set Vis)"
    proof -
      have eq: "U - set (Pred # Vis) = (U - set Vis) - {Pred}" by auto
      have mem: "Pred \<in> U - set Vis" using P False by simp
      have fin: "finite (U - set Vis)" using Cons.prems(3) by simp
      show ?thesis unfolding eq by (rule card_Suc_Diff1 [OF fin mem])
    qed
    show ?thesis
    proof (cases "HasSafepoint (BBStates S Pred)")
      case nosp: False
      with False Cons.prems(1)
      have "AddInPred_preds S rest (Pred # WL, Pred # Vis, LI, Fi) = Inr (WL2, Vis2, LI2, Fi2)"
        by simp
      from Cons.IH [OF this rest Cons.prems(3)] dec show ?thesis by simp
    next
      case True
      with False Cons.prems(1) obtain LI1 where
        "AddInPred_preds S rest (WL, Pred # Vis, LI1, False) = Inr (WL2, Vis2, LI2, Fi2)"
        by (auto split: list.splits sum.splits)
      from Cons.IH [OF this rest Cons.prems(3)] dec show ?thesis by simp
    qed
  qed
qed

function AddInPredLiveOuts_loop ::
  "Function \<Rightarrow> State \<Rightarrow> BasicBlock list \<times> BasicBlock list \<times> BitVector \<times> bool
     \<Rightarrow> error + BitVector" where
  "AddInPredLiveOuts_loop F S (WorkList, Visited, LiveIn', First) =
     (case WorkList of
        [] \<Rightarrow> Inr LiveIn'
      | BB # WorkList' \<Rightarrow>
         (case AddInPred_preds S (predecessors F BB) (WorkList', Visited, LiveIn', First) of
            Inl e \<Rightarrow> Inl e
          | Inr st \<Rightarrow> AddInPredLiveOuts_loop F S st))"
  by pat_completeness auto
termination
proof (relation "measure (\<lambda>(F, S, WL, Vis, LI, Fi). card (set (Blocks F) - set Vis) + length WL)",
    goal_cases)
  case 1
  show ?case by simp
next
  case (2 F S WorkList Visited LiveIn' First BB WorkList' st)
  obtain WL2 Vis2 LI2 Fi2 where st: "st = (WL2, Vis2, LI2, Fi2)" by (cases st) auto
  have "set (predecessors F BB) \<subseteq> set (Blocks F)" by (auto simp: predecessors_def)
  from AddInPred_preds_measure [OF 2(2) [unfolded st] this] 2(1) st
  show ?case by simp
qed

declare AddInPredLiveOuts_loop.simps [simp del]

definition AddInPredLiveOuts :: "Function \<Rightarrow> BasicBlock \<Rightarrow> State \<Rightarrow> error + BitVector" where
  "AddInPredLiveOuts F BB S = AddInPredLiveOuts_loop F S ([BB], [], [], True)"

text \<open>\<^verbatim>\<open>PlaceGCFrameStore\<close>: the store of the canonical value of the identifier \<open>R\<close>
  into its slot, before \<open>InsertionPoint\<close>. A missing entry of
  \<^verbatim>\<open>ReversePtrNumbering\<close> is a null pointer that \<^verbatim>\<open>GetPtrForNumber\<close> dereferences.\<close>

definition PlaceGCFrameStore ::
  "State \<Rightarrow> nat \<Rightarrow> 32 word \<Rightarrow> int list \<Rightarrow> Instruction \<Rightarrow> error + Inserted" where
  "PlaceGCFrameStore S R MinColorRoot Colors InsertionPoint =
     (case ReversePtrNumbering S (int R) of
        None \<Rightarrow> Inl NullPointer
      | Some Val \<Rightarrow>
          if R < length Colors
          then Inr (RootStore Val (word_of_int (Colors ! R) + MinColorRoot) InsertionPoint)
          else Inl OutOfBounds)"

text \<open>The loop over the set bits of \<open>NowLive\<close>, the live set of the safepoint \<open>sp\<close>.\<close>

fun PlaceStores_bits ::
  "State \<Rightarrow> BitVector \<Rightarrow> 32 word \<Rightarrow> int list \<Rightarrow> int \<Rightarrow> int list \<Rightarrow> error + Inserted list" where
  "PlaceStores_bits S LastLive MinColorRoot Colors sp [] = Inr []"
| "PlaceStores_bits S LastLive MinColorRoot Colors sp (Idx # rest) =
     (if \<not> HasBitSet LastLive (as_unsigned Idx)
      then (case vec_at (ReverseSafepointNumbering S) sp of
              Inl e \<Rightarrow> Inl e
            | Inr InsertionPoint \<Rightarrow>
               (case PlaceGCFrameStore S (as_unsigned Idx) MinColorRoot Colors InsertionPoint of
                  Inl e \<Rightarrow> Inl e
                | Inr st \<Rightarrow>
                   (case PlaceStores_bits S LastLive MinColorRoot Colors sp rest of
                      Inl e \<Rightarrow> Inl e
                    | Inr sts \<Rightarrow> Inr (st # sts))))
      else PlaceStores_bits S LastLive MinColorRoot Colors sp rest)"

text \<open>The loop over the safepoints of a block, in program order.\<close>

fun PlaceStores_safepoints ::
  "State \<Rightarrow> 32 word \<Rightarrow> int list \<Rightarrow> BitVector \<Rightarrow> int list \<Rightarrow> error + Inserted list" where
  "PlaceStores_safepoints S MinColorRoot Colors LastLive [] = Inr []"
| "PlaceStores_safepoints S MinColorRoot Colors LastLive (sp # rest) =
     (case vec_at (LiveSets S) sp of
        Inl e \<Rightarrow> Inl e
      | Inr NowLive \<Rightarrow>
         (case PlaceStores_bits S LastLive MinColorRoot Colors sp (set_bits NowLive) of
            Inl e \<Rightarrow> Inl e
          | Inr sts \<Rightarrow>
             (case PlaceStores_safepoints S MinColorRoot Colors NowLive rest of
                Inl e \<Rightarrow> Inl e
              | Inr others \<Rightarrow> Inr (sts @ others))))"

fun PlaceGCFrameStores_blocks ::
  "Function \<Rightarrow> State \<Rightarrow> 32 word \<Rightarrow> int list \<Rightarrow> BasicBlock list \<Rightarrow> error + Inserted list" where
  "PlaceGCFrameStores_blocks F S MinColorRoot Colors [] = Inr []"
| "PlaceGCFrameStores_blocks F S MinColorRoot Colors (BB # rest) =
     (if \<not> HasSafepoint (BBStates S BB)
      then PlaceGCFrameStores_blocks F S MinColorRoot Colors rest
      else case AddInPredLiveOuts F BB S of
        Inl e \<Rightarrow> Inl e
      | Inr LiveIn' \<Rightarrow>
         (case PlaceStores_safepoints S MinColorRoot Colors LiveIn'
                 (rev (Safepoints (BBStates S BB))) of
            Inl e \<Rightarrow> Inl e
          | Inr sts \<Rightarrow>
             (case PlaceGCFrameStores_blocks F S MinColorRoot Colors rest of
                Inl e \<Rightarrow> Inl e
              | Inr others \<Rightarrow> Inr (sts @ others))))"

definition PlaceGCFrameStores ::
  "Function \<Rightarrow> State \<Rightarrow> 32 word \<Rightarrow> int list \<Rightarrow> error + Inserted list" where
  "PlaceGCFrameStores F S MinColorRoot Colors =
     PlaceGCFrameStores_blocks F S MinColorRoot Colors (Blocks F)"

text \<open>
  \<^verbatim>\<open>PlaceRootsAndUpdateCalls\<close>. \<open>NRoots\<close> is \<^verbatim>\<open>unsigned\<close>: the sum is computed in
  \<^verbatim>\<open>size_t\<close> and truncated. \<open>PtrSize\<close> is \<^verbatim>\<open>sizeof(jl_value_t*)\<close>.
\<close>

definition NRoots_of :: "int list \<Rightarrow> State \<Rightarrow> 32 word" where
  "NRoots_of Colors S = word_of_int (MaxColor_of Colors + 1 + int (length (Allocas S)))"

definition PlaceRootsAndUpdateCalls ::
  "nat \<Rightarrow> Function \<Rightarrow> int list \<Rightarrow> State \<Rightarrow> error + Inserted list" where
  "PlaceRootsAndUpdateCalls PtrSize F Colors S =
     (let MaxColor = MaxColor_of Colors in
      if MaxColor \<noteq> -1 \<or> length (Allocas S) \<noteq> 0
      then
        let NRoots = NRoots_of Colors S;
            AllocaSlots = map (\<lambda>(k, AI). AllocaSlot AI (2 + word_of_nat k))
                            (enumerate 0 (Allocas S));
            MinColorRoot = (2 + word_of_nat (length (Allocas S)) :: 32 word)
        in case PlaceGCFrameStores F S MinColorRoot Colors of
             Inl e \<Rightarrow> Inl e
           | Inr stores \<Rightarrow>
               Inr ([FrameAlloca (NRoots + 2),
                     FrameZero (word_of_nat (PtrSize * unat (NRoots + 2)))]
                    @ PushGCFrame NRoots @ AllocaSlots @ stores
                    @ concat (map PopGCFrame (filter (IsReturnBlock F) (Blocks F))))
      else Inr [])"

text \<open>Lines 1473 to 1476 of \<^verbatim>\<open>runOnFunction\<close>, from the state LocalScan returned.\<close>

definition PlaceRoots_pipeline ::
  "nat \<Rightarrow> Function \<Rightarrow> (Instruction \<Rightarrow> BasicBlock) \<Rightarrow> State \<Rightarrow> (error + Inserted list) option" where
  "PlaceRoots_pipeline PtrSize F getParent S =
     (case ComputeLiveness F getParent S of
        None \<Rightarrow> None
      | Some (Inl e) \<Rightarrow> Some (Inl e)
      | Some (Inr S1) \<Rightarrow>
         (case ColorRoots S1 of
            None \<Rightarrow> None
          | Some (Inl e) \<Rightarrow> Some (Inl e)
          | Some (Inr Colors) \<Rightarrow> Some (PlaceRootsAndUpdateCalls PtrSize F Colors S1)))"

section \<open>The IR the local scan reads and extends\<close>

text \<open>
  Types, as far as the pass looks at them: a pointer type with its pointee and its
  address space, a struct type with its element types, a vector type with its element
  type and its number of elements, and any other type under a tag.
\<close>

datatype Ty =
    PointerTy Ty nat
  | StructTy "Ty list"
  | VectorTy Ty nat
  | OtherTy nat

text \<open>
  Modelled from the spec: the \<^verbatim>\<open>enum AddressSpace\<close> of
  \<^verbatim>\<open>codegen_shared.h\<close>, which is not part of the source at hand. The spec names
  a Tracked and a Derived space among the special ones and a foreign, untracked space;
  the numbers are Julia's (\<open>Generic = 0\<close>, \<open>Tracked = 10\<close>, \<open>Derived = 11\<close>,
  \<open>CalleeRooted = 12\<close>).
\<close>

definition Tracked :: nat where "Tracked = 10"
definition Derived :: nat where "Derived = 11"
definition FirstSpecial :: nat where "FirstSpecial = Tracked"
definition LastSpecial :: nat where "LastSpecial = 12"

text \<open>What the pass reads of a call: the function called directly, by name
  (\<^verbatim>\<open>getCalledFunction()\<close>, null for an indirect call), the argument operands, the
  operands of its operand bundles, its calling convention, and whether it can return
  twice.\<close>

record CallInfo =
  CalledFunction :: "string option"
  ArgOperands :: "Value list"
  BundleOperands :: "Value list"
  CallingConv :: nat
  canReturnTwice :: bool

text \<open>The kinds of values the pass tells apart. A load carries its pointer operand and
  whether its TBAA tag derives from \<^verbatim>\<open>jtbaa_immut\<close> (\<^verbatim>\<open>isLoadFromImmut\<close>); a store
  its value and pointer operands; an alloca its allocated type and whether it is an array
  allocation; a phi its incoming values with their blocks. \<open>ConstantInt\<close> is an integer constant with
  its value, \<open>Constant\<close> any other constant.\<close>

datatype ValueKind =
    BitCastInst Value
  | AddrSpaceCastInst Value
  | GetElementPtrInst Value "Value list"
  | ExtractValueInst Value "nat list"
  | LoadInst Value bool
  | StoreInst Value Value
  | CallInst CallInfo
  | SelectInst Value Value Value
  | PHINode "(Value \<times> BasicBlock) list"
  | AllocaInst Ty bool
  | ReturnInst "Value list"
  | OtherTerminator "Value list"
  | ShuffleVectorInst "Value list"
  | InsertElementInst "Value list"
  | Argument
  | ConstantInt nat
  | Constant
  | OtherInst "Value list"

text \<open>
  The function body as the pass sees and changes it: the kind and the type of every
  value, the instructions of every block in order, the block of every instruction, and
  the next unused identity (what \<^verbatim>\<open>new\<close> returns).
\<close>

record IR =
  kind :: "Value \<Rightarrow> ValueKind"
  type_of :: "Value \<Rightarrow> Ty"
  insts :: "BasicBlock \<Rightarrow> Instruction list"
  parent :: "Instruction \<Rightarrow> BasicBlock"
  fresh :: nat

definition new_value :: "ValueKind \<Rightarrow> Ty \<Rightarrow> IR \<Rightarrow> IR \<times> Value" where
  "new_value k t M =
     (M\<lparr> kind := (kind M)(fresh M := k), type_of := (type_of M)(fresh M := t),
         fresh := fresh M + 1 \<rparr>, fresh M)"

fun insert_at :: "Instruction \<Rightarrow> Instruction \<Rightarrow> Instruction list \<Rightarrow> Instruction list" where
  "insert_at Pos I [] = []"
| "insert_at Pos I (x # xs) = (if x = Pos then I # x # xs else x # insert_at Pos I xs)"

text \<open>Linking the instruction \<open>I\<close> into the block of \<open>Pos\<close>, before \<open>Pos\<close>.\<close>

definition insert_before :: "Instruction \<Rightarrow> Instruction \<Rightarrow> IR \<Rightarrow> IR" where
  "insert_before I Pos M =
     M\<lparr> insts := (insts M)(parent M Pos := insert_at Pos I (insts M (parent M Pos))),
         parent := (parent M)(I := parent M Pos) \<rparr>"

text \<open>Linking \<open>I\<close> before the terminator of \<open>BB\<close>, its last instruction; with no
  terminator (\<^verbatim>\<open>getTerminator()\<close> is null) the new instruction stays unlinked.\<close>

definition isTerminator :: "ValueKind \<Rightarrow> bool" where
  "isTerminator k = (case k of ReturnInst _ \<Rightarrow> True | OtherTerminator _ \<Rightarrow> True | _ \<Rightarrow> False)"

definition insert_before_terminator :: "Instruction \<Rightarrow> BasicBlock \<Rightarrow> IR \<Rightarrow> IR" where
  "insert_before_terminator I BB M =
     (if insts M BB = [] \<or> \<not> isTerminator (kind M (last (insts M BB))) then M
      else M\<lparr> insts := (insts M)(BB := butlast (insts M BB) @ [I, last (insts M BB)]),
               parent := (parent M)(I := BB) \<rparr>)"

definition isPointerTy :: "Ty \<Rightarrow> bool" where
  "isPointerTy T = (case T of PointerTy _ _ \<Rightarrow> True | _ \<Rightarrow> False)"

definition getValueAddrSpace :: "IR \<Rightarrow> Value \<Rightarrow> error + nat" where
  "getValueAddrSpace M V =
     (case type_of M V of
        PointerTy _ AS \<Rightarrow> Inr AS
      | _ \<Rightarrow> Inl (AssertionFailed ''cast<PointerType>''))"

definition isSpecialPtr :: "Ty \<Rightarrow> bool" where
  "isSpecialPtr T =
     (case T of PointerTy _ AS \<Rightarrow> FirstSpecial \<le> AS \<and> AS \<le> LastSpecial | _ \<Rightarrow> False)"

definition isSpecialPtrVec :: "Ty \<Rightarrow> bool" where
  "isSpecialPtrVec T = (case T of VectorTy E _ \<Rightarrow> isSpecialPtr E | _ \<Rightarrow> False)"

definition isUnionRep :: "Ty \<Rightarrow> bool" where
  "isUnionRep T = (case T of StructTy [E0, E1] \<Rightarrow> isSpecialPtr E0 | _ \<Rightarrow> False)"

subsection \<open>FindBaseValue\<close>

text \<open>The cache lookup at the head of the loop.\<close>

definition cache_hit :: "IR \<Rightarrow> State \<Rightarrow> Value \<Rightarrow> bool" where
  "cache_hit M S CurrentV =
     (if isPointerTy (type_of M CurrentV) then AllPtrNumbering S CurrentV \<noteq> None
      else AllVectorNumbering S CurrentV \<noteq> None)"

text \<open>The chain of tests in the loop body: the operand the walk moves to, or
  \<open>None\<close> for \<^verbatim>\<open>break\<close>.\<close>

definition FindBaseValue_step :: "IR \<Rightarrow> Value \<Rightarrow> error + Value option" where
  "FindBaseValue_step M CurrentV =
     (case kind M CurrentV of
        BitCastInst Op \<Rightarrow> Inr (Some Op)
      | AddrSpaceCastInst NewV \<Rightarrow>
          (case getValueAddrSpace M NewV of
             Inl e \<Rightarrow> Inl e
           | Inr AS \<Rightarrow> if AS = 0 then Inr None else Inr (Some NewV))
      | GetElementPtrInst Op _ \<Rightarrow> Inr (Some Op)
      | ExtractValueInst Operand _ \<Rightarrow>
          if \<not> isUnionRep (type_of M Operand) then Inr None else Inr (Some Operand)
      | _ \<Rightarrow> Inr None)"

text \<open>The assertion after the loop.\<close>

definition FindBaseValue_assert :: "IR \<Rightarrow> Value \<Rightarrow> error + Value" where
  "FindBaseValue_assert M CurrentV =
     (case kind M CurrentV of
        LoadInst _ _ \<Rightarrow> Inr CurrentV
      | CallInst _ \<Rightarrow> Inr CurrentV
      | Argument \<Rightarrow> Inr CurrentV
      | SelectInst _ _ _ \<Rightarrow> Inr CurrentV
      | PHINode _ \<Rightarrow> Inr CurrentV
      | AddrSpaceCastInst _ \<Rightarrow> Inr CurrentV
      | ConstantInt _ \<Rightarrow> Inr CurrentV
      | Constant \<Rightarrow> Inr CurrentV
      | AllocaInst _ _ \<Rightarrow> Inr CurrentV
      | ExtractValueInst _ _ \<Rightarrow> Inr CurrentV
      | _ \<Rightarrow> Inl (AssertionFailed ''isa<LoadInst>(CurrentV) || isa<CallInst>(CurrentV) || ...''))"

text \<open>The loop \<^verbatim>\<open>while (true)\<close>; it does not return on a cycle of casts, which
  unreachable code may hold.\<close>

partial_function (option) FindBaseValue ::
  "IR \<Rightarrow> State \<Rightarrow> Value \<Rightarrow> bool \<Rightarrow> (error + Value) option" where
  "FindBaseValue M S CurrentV UseCache =
     (if UseCache \<and> cache_hit M S CurrentV then Some (Inr CurrentV)
      else case FindBaseValue_step M CurrentV of
        Inl e \<Rightarrow> Some (Inl e)
      | Inr None \<Rightarrow> Some (FindBaseValue_assert M CurrentV)
      | Inr (Some NextV) \<Rightarrow> FindBaseValue M S NextV UseCache)"

text \<open>
  The members of the pass object that \<^verbatim>\<open>doInitialization\<close> sets and the phases
  read: the type of a tracked pointer to a Julia value and the functions of the module
  the pass knows by name, each null when the module has none.
\<close>

record LateLowerGCFrame =
  T_prjlvalue :: "Ty option"
  ptls_getter :: "string option"
  gc_flush_func :: "string option"
  pointer_from_objref_func :: "string option"
  alloc_obj_func :: "string option"

subsection \<open>LiftSelect and LiftPhi\<close>

definition MaybeExtractUnion :: "Value \<Rightarrow> Instruction \<Rightarrow> IR \<Rightarrow> IR \<times> Value" where
  "MaybeExtractUnion Val InsertBefore M =
     (if isUnionRep (type_of M Val)
      then (case new_value (ExtractValueInst Val [0])
                   (case type_of M Val of StructTy (E0 # _) \<Rightarrow> E0 | T \<Rightarrow> T) M of
              (M', EV) \<Rightarrow> (insert_before EV InsertBefore M', EV))
      else (M, Val))"

text \<open>\<^verbatim>\<open>ConstantPointerNull::get(cast<PointerType>(T))\<close>.\<close>

definition ConstantPointerNull :: "Ty \<Rightarrow> IR \<Rightarrow> error + (IR \<times> Value)" where
  "ConstantPointerNull T M =
     (if isPointerTy T then Inr (new_value Constant T M)
      else Inl (AssertionFailed ''cast<PointerType>''))"

text \<open>The part of LiftSelect after the two bases are found. The number returned is
  \<open>-1\<close> when neither base is tracked.\<close>

definition LiftSelect_bases ::
  "Instruction \<Rightarrow> Value \<Rightarrow> Value \<Rightarrow> Value \<Rightarrow> IR \<Rightarrow> State \<Rightarrow> error + (IR \<times> State \<times> int)" where
  "LiftSelect_bases SI Cond TrueBase0 FalseBase0 M0 S =
     (case MaybeExtractUnion TrueBase0 SI M0 of (M1, TrueBase1) \<Rightarrow>
      case MaybeExtractUnion FalseBase0 SI M1 of (M2, FalseBase1) \<Rightarrow>
      case getValueAddrSpace M2 TrueBase1 of Inl e \<Rightarrow> Inl e | Inr AST \<Rightarrow>
      case (if AST \<noteq> Tracked then ConstantPointerNull (type_of M2 FalseBase1) M2
            else Inr (M2, TrueBase1)) of Inl e \<Rightarrow> Inl e | Inr (M3, TrueBase) \<Rightarrow>
      case getValueAddrSpace M3 FalseBase1 of Inl e \<Rightarrow> Inl e | Inr ASF \<Rightarrow>
      case (if ASF \<noteq> Tracked then ConstantPointerNull (type_of M3 TrueBase) M3
            else Inr (M3, FalseBase1)) of Inl e \<Rightarrow> Inl e | Inr (M4, FalseBase) \<Rightarrow>
      case getValueAddrSpace M4 TrueBase of Inl e \<Rightarrow> Inl e | Inr AST' \<Rightarrow>
      if AST' \<noteq> Tracked then Inr (M4, S, -1)
      else case new_value (SelectInst Cond TrueBase FalseBase) (type_of M4 TrueBase) M4 of
        (M5, SelectBase) \<Rightarrow>
          let Number = MaxPtrNumber S + 1
          in Inr (insert_before SelectBase SI M5,
                  S\<lparr> MaxPtrNumber := Number,
                     PtrNumbering := (PtrNumbering S)(SelectBase \<mapsto> Number),
                     AllPtrNumbering := (AllPtrNumbering S)(SelectBase \<mapsto> Number, SI \<mapsto> Number),
                     ReversePtrNumbering := (ReversePtrNumbering S)(Number \<mapsto> SelectBase) \<rparr>,
                  Number))"

definition LiftSelect :: "IR \<Rightarrow> State \<Rightarrow> Instruction \<Rightarrow> (error + (IR \<times> State \<times> int)) option" where
  "LiftSelect M S SI =
     (case kind M SI of
        SelectInst Cond TrueValue FalseValue \<Rightarrow>
          (case FindBaseValue M S TrueValue False of
             None \<Rightarrow> None
           | Some (Inl e) \<Rightarrow> Some (Inl e)
           | Some (Inr TrueBase) \<Rightarrow>
              (case FindBaseValue M S FalseValue False of
                 None \<Rightarrow> None
               | Some (Inl e) \<Rightarrow> Some (Inl e)
               | Some (Inr FalseBase) \<Rightarrow> Some (LiftSelect_bases SI Cond TrueBase FalseBase M S)))
      | _ \<Rightarrow> Some (Inl (AssertionFailed ''cast<SelectInst>'')))"

text \<open>The loop of LiftPhi over the incoming values: the incoming values of the lifted
  phi, in order.\<close>

fun LiftPhi_incoming ::
  "Ty \<Rightarrow> State \<Rightarrow> (Value \<times> BasicBlock) list \<Rightarrow> IR \<Rightarrow> (error + (IR \<times> (Value \<times> BasicBlock) list)) option" where
  "LiftPhi_incoming Tprj S [] M = Some (Inr (M, []))"
| "LiftPhi_incoming Tprj S ((Incoming, IncomingBlock) # rest) M =
     (case FindBaseValue M S Incoming False of
        None \<Rightarrow> None
      | Some (Inl e) \<Rightarrow> Some (Inl e)
      | Some (Inr Base0) \<Rightarrow>
         (case getValueAddrSpace M Base0 of
            Inl e \<Rightarrow> Some (Inl e)
          | Inr AS \<Rightarrow>
             (case (if AS \<noteq> Tracked then ConstantPointerNull Tprj M else Inr (M, Base0)) of
                Inl e \<Rightarrow> Some (Inl e)
              | Inr (M1, Base1) \<Rightarrow>
                 (case (if type_of M1 Base1 \<noteq> Tprj
                        then (case new_value (BitCastInst Base1) Tprj M1 of
                                (M2, BC) \<Rightarrow> (insert_before_terminator BC IncomingBlock M2, BC))
                        else (M1, Base1)) of
                    (M3, Base) \<Rightarrow>
                      (case LiftPhi_incoming Tprj S rest M3 of
                         None \<Rightarrow> None
                       | Some (Inl e) \<Rightarrow> Some (Inl e)
                       | Some (Inr (M4, others)) \<Rightarrow> Some (Inr (M4, (Base, IncomingBlock) # others)))))))"

definition LiftPhi ::
  "LateLowerGCFrame \<Rightarrow> IR \<Rightarrow> State \<Rightarrow> Instruction \<Rightarrow> (error + (IR \<times> State \<times> int)) option" where
  "LiftPhi P M0 S Phi =
     (case (kind M0 Phi, T_prjlvalue P) of
        (PHINode Incomings, None) \<Rightarrow> Some (Inl NullPointer)
      | (PHINode Incomings, Some Tprj) \<Rightarrow>
          (case new_value (PHINode []) Tprj M0 of (M1, lift) \<Rightarrow>
           case LiftPhi_incoming Tprj S Incomings (insert_before lift Phi M1) of
             None \<Rightarrow> None
           | Some (Inl e) \<Rightarrow> Some (Inl e)
           | Some (Inr (M2, LiftedIncomings)) \<Rightarrow>
               let Number = MaxPtrNumber S + 1
               in Some (Inr (M2\<lparr> kind := (kind M2)(lift := PHINode LiftedIncomings) \<rparr>,
                    S\<lparr> MaxPtrNumber := Number,
                       PtrNumbering := (PtrNumbering S)(lift \<mapsto> Number),
                       AllPtrNumbering := (AllPtrNumbering S)(lift \<mapsto> Number, Phi \<mapsto> Number),
                       ReversePtrNumbering := (ReversePtrNumbering S)(Number \<mapsto> lift) \<rparr>,
                    Number)))
      | _ \<Rightarrow> Some (Inl (AssertionFailed ''cast<PHINode>'')))"

subsection \<open>Number\<close>

text \<open>The branches of Number once the base \<open>CurrentV\<close> is found and has no number yet.\<close>

definition Number_base ::
  "LateLowerGCFrame \<Rightarrow> IR \<Rightarrow> State \<Rightarrow> Value \<Rightarrow> Value \<Rightarrow> (error + (IR \<times> State \<times> int)) option" where
  "Number_base P M S V CurrentV =
     (let rooted = (\<lambda>Number. Some (Inr (M,
            S\<lparr> PtrNumbering := (PtrNumbering S)(CurrentV \<mapsto> Number),
               AllPtrNumbering := (AllPtrNumbering S)(V \<mapsto> Number, CurrentV \<mapsto> Number) \<rparr>,
            Number)));
          numbered = (if (isPointerTy (type_of M CurrentV)
                            \<and> getValueAddrSpace M CurrentV = Inr Tracked)
                         \<or> isUnionRep (type_of M CurrentV)
             then (let Number = MaxPtrNumber S + 1
                   in Some (Inr (M,
                        S\<lparr> MaxPtrNumber := Number,
                           ReversePtrNumbering := (ReversePtrNumbering S)(Number \<mapsto> CurrentV),
                           PtrNumbering := (PtrNumbering S)(CurrentV \<mapsto> Number),
                           AllPtrNumbering := (AllPtrNumbering S)(V \<mapsto> Number, CurrentV \<mapsto> Number) \<rparr>,
                        Number)))
             else Some (Inl (AssertionFailed ''Tracked pointer or union expected'')));
          untracked = (\<lambda>k. case getValueAddrSpace M CurrentV of
                              Inl e \<Rightarrow> Some (Inl e)
                            | Inr AS \<Rightarrow> if AS \<noteq> Tracked then k else numbered)
      in case kind M CurrentV of
        Constant \<Rightarrow> rooted (-1)
      | ConstantInt _ \<Rightarrow> rooted (-1)
      | Argument \<Rightarrow> rooted (-1)
      | AllocaInst _ _ \<Rightarrow> untracked (rooted (-1))
      | AddrSpaceCastInst _ \<Rightarrow> untracked (rooted (-1))
      | SelectInst _ _ _ \<Rightarrow>
          untracked (case LiftSelect M S CurrentV of
             None \<Rightarrow> None
           | Some (Inl e) \<Rightarrow> Some (Inl e)
           | Some (Inr (M', S', Number)) \<Rightarrow>
               Some (Inr (M', S'\<lparr> AllPtrNumbering := (AllPtrNumbering S')(V \<mapsto> Number) \<rparr>, Number)))
      | PHINode _ \<Rightarrow>
          untracked (case LiftPhi P M S CurrentV of
             None \<Rightarrow> None
           | Some (Inl e) \<Rightarrow> Some (Inl e)
           | Some (Inr (M', S', Number)) \<Rightarrow>
               Some (Inr (M', S'\<lparr> AllPtrNumbering := (AllPtrNumbering S')(V \<mapsto> Number) \<rparr>, Number)))
      | ExtractValueInst _ _ \<Rightarrow>
          if \<not> isUnionRep (type_of M CurrentV) then Some (Inl Abort) else numbered
      | _ \<Rightarrow> numbered)"

definition Number :: "LateLowerGCFrame \<Rightarrow> IR \<Rightarrow> State \<Rightarrow> Value \<Rightarrow> (error + (IR \<times> State \<times> int)) option" where
  "Number P M S V =
     (if \<not> (isSpecialPtr (type_of M V) \<or> isUnionRep (type_of M V))
      then Some (Inl (AssertionFailed ''isSpecialPtr(V->getType()) || isUnionRep(V->getType())''))
      else case FindBaseValue M S V True of
        None \<Rightarrow> None
      | Some (Inl e) \<Rightarrow> Some (Inl e)
      | Some (Inr CurrentV) \<Rightarrow>
         (case AllPtrNumbering S CurrentV of
            Some Number \<Rightarrow> Some (Inr (M, S, Number))
          | None \<Rightarrow> Number_base P M S V CurrentV))"

subsection \<open>NumberVector\<close>

definition getNumElements :: "Ty \<Rightarrow> error + nat" where
  "getNumElements T = (case T of VectorTy _ n \<Rightarrow> Inr n | _ \<Rightarrow> Inl (AssertionFailed ''cast<VectorType>''))"

text \<open>The last line, \<^verbatim>\<open>return S.AllVectorNumbering[CurrentV]\<close>: \<^verbatim>\<open>operator[]\<close>
  creates an empty entry when there is none.\<close>

definition NumberVector_return :: "IR \<Rightarrow> State \<Rightarrow> Value \<Rightarrow> error + (IR \<times> State \<times> int list)" where
  "NumberVector_return M S CurrentV =
     (case AllVectorNumbering S CurrentV of
        Some Numbers \<Rightarrow> Inr (M, S, Numbers)
      | None \<Rightarrow> Inr (M, S\<lparr> AllVectorNumbering := (AllVectorNumbering S)(CurrentV \<mapsto> []) \<rparr>, []))"

definition NumberVector_base :: "IR \<Rightarrow> State \<Rightarrow> Value \<Rightarrow> Value \<Rightarrow> error + (IR \<times> State \<times> int list)" where
  "NumberVector_base M S V CurrentV =
     (let rooted = NumberVector_return M (S\<lparr> AllVectorNumbering := (AllVectorNumbering S)(V \<mapsto> []) \<rparr>) CurrentV;
          untracked = (case getValueAddrSpace M CurrentV of
                         Inl e \<Rightarrow> Inl e
                       | Inr AS \<Rightarrow> if AS \<noteq> Tracked then rooted else NumberVector_return M S CurrentV)
      in case kind M CurrentV of
        Constant \<Rightarrow> rooted
      | ConstantInt _ \<Rightarrow> rooted
      | Argument \<Rightarrow> untracked
      | AllocaInst _ _ \<Rightarrow> untracked
      | AddrSpaceCastInst _ \<Rightarrow> untracked
      | ShuffleVectorInst _ \<Rightarrow> Inl (AssertionFailed ''TODO Shuffle'')
      | InsertElementInst _ \<Rightarrow> Inl (AssertionFailed ''TODO Insert'')
      | LoadInst _ _ \<Rightarrow>
         (case getNumElements (type_of M CurrentV) of
            Inl e \<Rightarrow> Inl e
          | Inr n \<Rightarrow>
             (let Numbers = map (\<lambda>i. MaxPtrNumber S + 1 + int i) [0..<n]
              in NumberVector_return M
                   (S\<lparr> MaxPtrNumber := MaxPtrNumber S + int n,
                      ReversePtrNumbering := (\<lambda>Num. if Num \<in> set Numbers then Some V
                                                    else ReversePtrNumbering S Num),
                      AllVectorNumbering := (AllVectorNumbering S)(V \<mapsto> Numbers) \<rparr>)
                   CurrentV))
      | _ \<Rightarrow> NumberVector_return M S CurrentV)"

definition NumberVector :: "IR \<Rightarrow> State \<Rightarrow> Value \<Rightarrow> (error + (IR \<times> State \<times> int list)) option" where
  "NumberVector M S V =
     (case AllVectorNumbering S V of
        Some Numbers \<Rightarrow> Some (Inr (M, S, Numbers))
      | None \<Rightarrow>
         (case FindBaseValue M S V True of
            None \<Rightarrow> None
          | Some (Inl e) \<Rightarrow> Some (Inl e)
          | Some (Inr CurrentV) \<Rightarrow>
             (case AllVectorNumbering S CurrentV of
                Some Numbers \<Rightarrow> Some (Inr (M, S, Numbers))
              | None \<Rightarrow> Some (NumberVector_base M S V CurrentV))))"

subsection \<open>NoteDef, NoteSafepoint, NoteUse\<close>

text \<open>\<^verbatim>\<open>BV[Idx] = b\<close>; an index past the size is out of bounds.\<close>

definition bv_set :: "BitVector \<Rightarrow> nat \<Rightarrow> bool \<Rightarrow> error + BitVector" where
  "bv_set BV Idx b = (if Idx < length BV then Inr (BV[Idx := b]) else Inl OutOfBounds)"

text \<open>The loop of NoteDef over \<^verbatim>\<open>SafepointsSoFar\<close>.\<close>

fun NoteDef_LiveIfLiveOut :: "int \<Rightarrow> int list \<Rightarrow> int list list \<Rightarrow> error + int list list" where
  "NoteDef_LiveIfLiveOut Num [] LIL = Inr LIL"
| "NoteDef_LiveIfLiveOut Num (Safepoint # rest) LIL =
     (if 0 \<le> Safepoint \<and> nat Safepoint < length LIL
      then NoteDef_LiveIfLiveOut Num rest (LIL[nat Safepoint := LIL ! nat Safepoint @ [Num]])
      else Inl OutOfBounds)"

text \<open>NoteDef on the state of the block \<open>BB\<close> (the reference \<^verbatim>\<open>BBS\<close>).\<close>

definition NoteDef :: "State \<Rightarrow> BasicBlock \<Rightarrow> int \<Rightarrow> int list \<Rightarrow> error + State" where
  "NoteDef S BB Num SafepointsSoFar =
     (if Num = -1 then Inl (AssertionFailed ''Num != -1'')
      else let BBS = MaybeResize (BBStates S BB) (as_unsigned Num);
               Idx = as_unsigned Num
      in if \<not> Idx < length (Defs BBS) then Inl OutOfBounds
         else if Defs BBS ! Idx then Inl (AssertionFailed ''SSA Violation or misnumbering?'')
         else case bv_set (UpExposedUses BBS) Idx False of Inl e \<Rightarrow> Inl e | Inr UEU \<Rightarrow>
              case bv_set (UpExposedUsesUnrooted BBS) Idx False of Inl e \<Rightarrow> Inl e | Inr UEUU \<Rightarrow>
              case (if \<not> HasSafepoint BBS then bv_set (DownExposedUnrooted BBS) Idx True
                    else Inr (DownExposedUnrooted BBS)) of Inl e \<Rightarrow> Inl e | Inr DEU \<Rightarrow>
              case NoteDef_LiveIfLiveOut Num SafepointsSoFar (LiveIfLiveOut S) of
                Inl e \<Rightarrow> Inl e
              | Inr LIL \<Rightarrow>
                  Inr (S\<lparr> BBStates := (BBStates S)(BB := BBS\<lparr> Defs := (Defs BBS)[Idx := True],
                              UpExposedUses := UEU, UpExposedUsesUnrooted := UEUU,
                              DownExposedUnrooted := DEU \<rparr>),
                         LiveIfLiveOut := LIL \<rparr>))"

text \<open>The loop of MaybeNoteDef over the numbers of a vector.\<close>

fun NoteDef_vector :: "State \<Rightarrow> BasicBlock \<Rightarrow> int list \<Rightarrow> int list \<Rightarrow> int \<Rightarrow> error + State" where
  "NoteDef_vector S BB [] SafepointsSoFar RefinedPtr = Inr S"
| "NoteDef_vector S BB (Num # Nums) SafepointsSoFar RefinedPtr =
     (case NoteDef S BB Num SafepointsSoFar of
        Inl e \<Rightarrow> Inl e
      | Inr S' \<Rightarrow>
          NoteDef_vector
            (if RefinedPtr \<noteq> -2 then S'\<lparr> LoadRefinements := (LoadRefinements S')(Num \<mapsto> RefinedPtr) \<rparr>
             else S')
            BB Nums SafepointsSoFar RefinedPtr)"

text \<open>MaybeNoteDef; \<^verbatim>\<open>SafepointsSoFar\<close> is at every call the list
  \<^verbatim>\<open>BBS.Safepoints\<close> of the block scanned.\<close>

definition MaybeNoteDef ::
  "LateLowerGCFrame \<Rightarrow> IR \<Rightarrow> State \<Rightarrow> BasicBlock \<Rightarrow> Value \<Rightarrow> int \<Rightarrow> (error + (IR \<times> State)) option" where
  "MaybeNoteDef P M S BB Def RefinedPtr =
     (let RT = type_of M Def;
          scalar = (case Number P M S Def of
                      None \<Rightarrow> None
                    | Some (Inl e) \<Rightarrow> Some (Inl e)
                    | Some (Inr (M', S', Num)) \<Rightarrow>
                       (case NoteDef S' BB Num (Safepoints (BBStates S' BB)) of
                          Inl e \<Rightarrow> Some (Inl e)
                        | Inr S'' \<Rightarrow>
                            Some (Inr (M', if RefinedPtr \<noteq> -2
                                           then S''\<lparr> LoadRefinements := (LoadRefinements S'')(Num \<mapsto> RefinedPtr) \<rparr>
                                           else S''))))
      in if isSpecialPtr RT
         then (if getValueAddrSpace M Def \<noteq> Inr Tracked
               then Some (Inl (AssertionFailed ''Returned value of GC interest, but not tracked?''))
               else scalar)
         else if isUnionRep RT then scalar
         else if isSpecialPtrVec RT
         then (case NumberVector M S Def of
                 None \<Rightarrow> None
               | Some (Inl e) \<Rightarrow> Some (Inl e)
               | Some (Inr (M', S', Nums)) \<Rightarrow>
                  (case NoteDef_vector S' BB Nums (Safepoints (BBStates S' BB)) RefinedPtr of
                     Inl e \<Rightarrow> Some (Inl e)
                   | Inr S'' \<Rightarrow> Some (Inr (M', S''))))
         else Some (Inr (M, S)))"

text \<open>\<^verbatim>\<open>S.SafepointNumbering[CI] = Number\<close>: the map is kept in the order of its
  keys.\<close>

definition NoteSafepoint :: "State \<Rightarrow> BasicBlock \<Rightarrow> Instruction \<Rightarrow> State \<times> int" where
  "NoteSafepoint S BB CI =
     (let Number = MaxSafepointNumber S + 1;
          BBS = BBStates S BB;
          UEU = bv_or (UpExposedUses BBS) (UpExposedUsesUnrooted BBS)
      in (S\<lparr> MaxSafepointNumber := Number,
             SafepointNumbering := insort_key fst (CI, Number)
                                     (filter (\<lambda>p. fst p \<noteq> CI) (SafepointNumbering S)),
             ReverseSafepointNumbering := ReverseSafepointNumbering S @ [CI],
             BBStates := (BBStates S)(BB := BBS\<lparr> UpExposedUses := UEU,
                            UpExposedUsesUnrooted := bv_reset (UpExposedUsesUnrooted BBS) \<rparr>),
             LiveSets := LiveSets S @ [UEU],
             LiveIfLiveOut := LiveIfLiveOut S @ [[]] \<rparr>, Number))"

text \<open>The BitVector of a block state that a call of NoteUse passes by reference.\<close>

datatype UsesVector = TheUpExposedUses | TheUpExposedUsesUnrooted | ThePhiOuts

definition get_Uses :: "UsesVector \<Rightarrow> BBState \<Rightarrow> BitVector" where
  "get_Uses U BBS = (case U of TheUpExposedUses \<Rightarrow> UpExposedUses BBS
     | TheUpExposedUsesUnrooted \<Rightarrow> UpExposedUsesUnrooted BBS | ThePhiOuts \<Rightarrow> PhiOuts BBS)"

definition set_Uses :: "UsesVector \<Rightarrow> BitVector \<Rightarrow> BBState \<Rightarrow> BBState" where
  "set_Uses U BV BBS = (case U of TheUpExposedUses \<Rightarrow> BBS\<lparr> UpExposedUses := BV \<rparr>
     | TheUpExposedUsesUnrooted \<Rightarrow> BBS\<lparr> UpExposedUsesUnrooted := BV \<rparr>
     | ThePhiOuts \<Rightarrow> BBS\<lparr> PhiOuts := BV \<rparr>)"

text \<open>\<^verbatim>\<open>MaybeResize(BBS, Num); Uses[Num] = 1\<close>.\<close>

definition mark_Use :: "State \<Rightarrow> BasicBlock \<Rightarrow> UsesVector \<Rightarrow> int \<Rightarrow> error + State" where
  "mark_Use S BB U Num =
     (let BBS = MaybeResize (BBStates S BB) (as_unsigned Num)
      in case bv_set (get_Uses U BBS) (as_unsigned Num) True of
           Inl e \<Rightarrow> Inl e
         | Inr BV \<Rightarrow> Inr (S\<lparr> BBStates := (BBStates S)(BB := set_Uses U BV BBS) \<rparr>))"

fun mark_Uses :: "State \<Rightarrow> BasicBlock \<Rightarrow> UsesVector \<Rightarrow> int list \<Rightarrow> error + State" where
  "mark_Uses S BB U [] = Inr S"
| "mark_Uses S BB U (Num # Nums) =
     (case mark_Use S BB U Num of Inl e \<Rightarrow> Inl e | Inr S' \<Rightarrow> mark_Uses S' BB U Nums)"

definition isConstant :: "ValueKind \<Rightarrow> bool" where
  "isConstant k = (case k of Constant \<Rightarrow> True | ConstantInt _ \<Rightarrow> True | _ \<Rightarrow> False)"

definition NoteUse ::
  "LateLowerGCFrame \<Rightarrow> IR \<Rightarrow> State \<Rightarrow> BasicBlock \<Rightarrow> Value \<Rightarrow> UsesVector \<Rightarrow> (error + (IR \<times> State)) option" where
  "NoteUse P M S BB V U =
     (if isConstant (kind M V) then Some (Inr (M, S))
      else if isSpecialPtrVec (type_of M V)
      then (case NumberVector M S V of
              None \<Rightarrow> None
            | Some (Inl e) \<Rightarrow> Some (Inl e)
            | Some (Inr (M', S', Nums)) \<Rightarrow>
               (case mark_Uses S' BB U Nums of
                  Inl e \<Rightarrow> Some (Inl e)
                | Inr S'' \<Rightarrow> Some (Inr (M', S''))))
      else (case Number P M S V of
              None \<Rightarrow> None
            | Some (Inl e) \<Rightarrow> Some (Inl e)
            | Some (Inr (M', S', Num)) \<Rightarrow>
                if Num = -1 then Some (Inr (M', S'))
                else (case mark_Use S' BB U Num of
                        Inl e \<Rightarrow> Some (Inl e)
                      | Inr S'' \<Rightarrow> Some (Inr (M', S'')))))"

text \<open>The operands of a user. Of a call these are its arguments and the operands of its
  bundles; its last operand, the callee, is a function or a pointer to one and is left
  out.\<close>

definition operands :: "ValueKind \<Rightarrow> Value list" where
  "operands k =
     (case k of
        BitCastInst Op \<Rightarrow> [Op]
      | AddrSpaceCastInst Op \<Rightarrow> [Op]
      | GetElementPtrInst Op Idx \<Rightarrow> Op # Idx
      | ExtractValueInst Op _ \<Rightarrow> [Op]
      | LoadInst Op _ \<Rightarrow> [Op]
      | StoreInst Val Ptr \<Rightarrow> [Val, Ptr]
      | CallInst CI \<Rightarrow> ArgOperands CI @ BundleOperands CI
      | SelectInst C T F \<Rightarrow> [C, T, F]
      | PHINode Inc \<Rightarrow> map fst Inc
      | AllocaInst _ _ \<Rightarrow> []
      | ReturnInst Ops \<Rightarrow> Ops
      | OtherTerminator Ops \<Rightarrow> Ops
      | ShuffleVectorInst Ops \<Rightarrow> Ops
      | InsertElementInst Ops \<Rightarrow> Ops
      | Argument \<Rightarrow> []
      | ConstantInt _ \<Rightarrow> []
      | Constant \<Rightarrow> []
      | OtherInst Ops \<Rightarrow> Ops)"

text \<open>A loop over operands that calls NoteUse for those that \<open>want\<close> selects.\<close>

fun NoteUses ::
  "LateLowerGCFrame \<Rightarrow> (Ty \<Rightarrow> bool) \<Rightarrow> BasicBlock \<Rightarrow> UsesVector \<Rightarrow> Value list \<Rightarrow> IR \<times> State
     \<Rightarrow> (error + (IR \<times> State)) option" where
  "NoteUses P want BB U [] MS = Some (Inr MS)"
| "NoteUses P want BB U (V # rest) (M, S) =
     (if \<not> want (type_of M V) then NoteUses P want BB U rest (M, S)
      else case NoteUse P M S BB V U of
        None \<Rightarrow> None
      | Some (Inl e) \<Rightarrow> Some (Inl e)
      | Some (Inr MS') \<Rightarrow> NoteUses P want BB U rest MS')"

definition NoteOperandUses ::
  "LateLowerGCFrame \<Rightarrow> IR \<Rightarrow> State \<Rightarrow> BasicBlock \<Rightarrow> Instruction \<Rightarrow> UsesVector \<Rightarrow> (error + (IR \<times> State)) option" where
  "NoteOperandUses P M S BB UI U = NoteUses P isSpecialPtr BB U (operands (kind M UI)) (M, S)"

subsection \<open>LocalScan\<close>

text \<open>\<^verbatim>\<open>LooksLikeFrameRef\<close> follows the pointer operands of GEPs.\<close>

partial_function (option) LooksLikeFrameRef :: "IR \<Rightarrow> Value \<Rightarrow> bool option" where
  "LooksLikeFrameRef M V =
     (if isSpecialPtr (type_of M V) then Some False
      else case kind M V of
        GetElementPtrInst Op _ \<Rightarrow> LooksLikeFrameRef M Op
      | Argument \<Rightarrow> Some True
      | _ \<Rightarrow> Some False)"

text \<open>\<^verbatim>\<open>isa<IntrinsicInst>(CI)\<close>: the call is a direct call of a function whose name
  starts with \<open>llvm.\<close>.\<close>

definition isIntrinsic :: "string \<Rightarrow> bool" where
  "isIntrinsic name = (take 5 name = ''llvm.'')"

definition isIntrinsicInst :: "CallInfo \<Rightarrow> bool" where
  "isIntrinsicInst CI = (case CalledFunction CI of None \<Rightarrow> False | Some callee \<Rightarrow> isIntrinsic callee)"

text \<open>The test of LocalScan on the callee of a call that is no intrinsic: the calls it
  does not count as safepoints.\<close>

definition isKnownNonSafepoint :: "LateLowerGCFrame \<Rightarrow> CallInfo \<Rightarrow> bool" where
  "isKnownNonSafepoint P CI =
     (case CalledFunction CI of
        None \<Rightarrow> False
      | Some callee \<Rightarrow> Some callee = pointer_from_objref_func P \<or> callee = ''memcmp'')"

text \<open>The branch of LocalScan for a call.\<close>

definition LocalScan_call ::
  "LateLowerGCFrame \<Rightarrow> BasicBlock \<Rightarrow> Instruction \<Rightarrow> CallInfo \<Rightarrow> IR \<Rightarrow> State \<Rightarrow> (error + (IR \<times> State)) option" where
  "LocalScan_call P BB I CI M S =
     (if isIntrinsicInst CI then Some (Inr (M, S))
      else case MaybeNoteDef P M S BB I (-2) of
        None \<Rightarrow> None
      | Some (Inl e) \<Rightarrow> Some (Inl e)
      | Some (Inr (M1, S1)) \<Rightarrow>
         (case NoteOperandUses P M1 S1 BB I TheUpExposedUses of
            None \<Rightarrow> None
          | Some (Inl e) \<Rightarrow> Some (Inl e)
          | Some (Inr (M2, S2)) \<Rightarrow>
             (case NoteUses P isUnionRep BB TheUpExposedUses (operands (kind M2 I)) (M2, S2) of
                None \<Rightarrow> None
              | Some (Inl e) \<Rightarrow> Some (Inl e)
              | Some (Inr (M3, S3)) \<Rightarrow>
                 (let S4 = (if canReturnTwice CI then S3\<lparr> ReturnsTwice := ReturnsTwice S3 @ [I] \<rparr>
                            else S3)
                  in if isKnownNonSafepoint P CI then Some (Inr (M3, S4))
                     else case NoteSafepoint S4 BB I of
                       (S5, SafepointNumber) \<Rightarrow>
                         Some (Inr (M3, S5\<lparr> BBStates := (BBStates S5)(BB := (BBStates S5 BB)
                            \<lparr> Safepoints := Safepoints (BBStates S5 BB) @ [SafepointNumber],
                              TopmostSafepoint := SafepointNumber, HasSafepoint := True \<rparr>) \<rparr>))))))"

text \<open>The branch for a load: first \<^verbatim>\<open>RefinedPtr\<close>, which is \<open>-2\<close> for no refinement,
  then the def and the uses.\<close>

definition LocalScan_load_RefinedPtr ::
  "LateLowerGCFrame \<Rightarrow> Instruction \<Rightarrow> Value \<Rightarrow> bool \<Rightarrow> IR \<Rightarrow> State \<Rightarrow> (error + (IR \<times> State \<times> int)) option" where
  "LocalScan_load_RefinedPtr P LI PointerOperand FromImmut M S =
     (if FromImmut \<and> isSpecialPtr (type_of M PointerOperand)
      then Number P M S PointerOperand
      else if isPointerTy (type_of M LI) \<and> isSpecialPtr (type_of M LI)
      then (case LooksLikeFrameRef M PointerOperand of
              None \<Rightarrow> None
            | Some b \<Rightarrow> Some (Inr (M, S, if b then -1 else -2)))
      else Some (Inr (M, S, -2)))"

definition LocalScan_load ::
  "LateLowerGCFrame \<Rightarrow> BasicBlock \<Rightarrow> Instruction \<Rightarrow> Value \<Rightarrow> bool \<Rightarrow> IR \<Rightarrow> State \<Rightarrow> (error + (IR \<times> State)) option" where
  "LocalScan_load P BB LI PointerOperand FromImmut M S =
     (case LocalScan_load_RefinedPtr P LI PointerOperand FromImmut M S of
        None \<Rightarrow> None
      | Some (Inl e) \<Rightarrow> Some (Inl e)
      | Some (Inr (M1, S1, RefinedPtr)) \<Rightarrow>
         (case MaybeNoteDef P M1 S1 BB LI RefinedPtr of
            None \<Rightarrow> None
          | Some (Inl e) \<Rightarrow> Some (Inl e)
          | Some (Inr (M2, S2)) \<Rightarrow> NoteOperandUses P M2 S2 BB LI TheUpExposedUsesUnrooted))"

text \<open>A def whose operands are uses not yet rooted: the tracked select.\<close>

definition LocalScan_def_uses ::
  "LateLowerGCFrame \<Rightarrow> BasicBlock \<Rightarrow> Instruction \<Rightarrow> IR \<Rightarrow> State \<Rightarrow> (error + (IR \<times> State)) option" where
  "LocalScan_def_uses P BB I M S =
     (case MaybeNoteDef P M S BB I (-2) of
        None \<Rightarrow> None
      | Some (Inl e) \<Rightarrow> Some (Inl e)
      | Some (Inr (M1, S1)) \<Rightarrow> NoteOperandUses P M1 S1 BB I TheUpExposedUsesUnrooted)"

text \<open>The loop over the incoming values of a tracked phi: each is a use in the
  \<^verbatim>\<open>PhiOuts\<close> of its incoming block.\<close>

fun LocalScan_phi_uses ::
  "LateLowerGCFrame \<Rightarrow> (Value \<times> BasicBlock) list \<Rightarrow> IR \<times> State \<Rightarrow> (error + (IR \<times> State)) option" where
  "LocalScan_phi_uses P [] MS = Some (Inr MS)"
| "LocalScan_phi_uses P ((IncomingValue, IncomingBlock) # rest) (M, S) =
     (case NoteUse P M S IncomingBlock IncomingValue ThePhiOuts of
        None \<Rightarrow> None
      | Some (Inl e) \<Rightarrow> Some (Inl e)
      | Some (Inr MS') \<Rightarrow> LocalScan_phi_uses P rest MS')"

text \<open>The body of the loop over the instructions of a block.\<close>

definition LocalScan_inst ::
  "LateLowerGCFrame \<Rightarrow> BasicBlock \<Rightarrow> Instruction \<Rightarrow> IR \<Rightarrow> State \<Rightarrow> (error + (IR \<times> State)) option" where
  "LocalScan_inst P BB I M S =
     (case kind M I of
        CallInst CI \<Rightarrow> LocalScan_call P BB I CI M S
      | LoadInst PointerOperand FromImmut \<Rightarrow> LocalScan_load P BB I PointerOperand FromImmut M S
      | SelectInst _ _ _ \<Rightarrow>
          if \<not> isSpecialPtr (type_of M I) then Some (Inr (M, S))
          else if getValueAddrSpace M I \<noteq> Inr Tracked
          then (if AllPtrNumbering S I \<noteq> None then Some (Inr (M, S))
                else case LiftSelect M S I of
                  None \<Rightarrow> None
                | Some (Inl e) \<Rightarrow> Some (Inl e)
                | Some (Inr (M', S', _)) \<Rightarrow> Some (Inr (M', S')))
          else LocalScan_def_uses P BB I M S
      | PHINode Incomings \<Rightarrow>
          if \<not> isSpecialPtr (type_of M I) then Some (Inr (M, S))
          else if getValueAddrSpace M I \<noteq> Inr Tracked
          then (if AllPtrNumbering S I \<noteq> None then Some (Inr (M, S))
                else case LiftPhi P M S I of
                  None \<Rightarrow> None
                | Some (Inl e) \<Rightarrow> Some (Inl e)
                | Some (Inr (M', S', _)) \<Rightarrow> Some (Inr (M', S')))
          else (case MaybeNoteDef P M S BB I (-2) of
                  None \<Rightarrow> None
                | Some (Inl e) \<Rightarrow> Some (Inl e)
                | Some (Inr MS') \<Rightarrow> LocalScan_phi_uses P Incomings MS')
      | StoreInst _ _ \<Rightarrow> NoteOperandUses P M S BB I TheUpExposedUsesUnrooted
      | ReturnInst _ \<Rightarrow> NoteOperandUses P M S BB I TheUpExposedUsesUnrooted
      | AddrSpaceCastInst _ \<Rightarrow>
         (case getValueAddrSpace M I of
            Inl e \<Rightarrow> Some (Inl e)
          | Inr AS \<Rightarrow> if AS = Tracked then MaybeNoteDef P M S BB I (-2) else Some (Inr (M, S)))
      | AllocaInst AllocatedType IsArray \<Rightarrow>
          if isSpecialPtr AllocatedType \<and> \<not> IsArray
               \<and> (case AllocatedType of PointerTy _ AS \<Rightarrow> AS = Tracked | _ \<Rightarrow> False)
          then Some (Inr (M, S\<lparr> Allocas := Allocas S @ [I] \<rparr>))
          else Some (Inr (M, S))
      | _ \<Rightarrow> Some (Inr (M, S)))"

text \<open>The instruction before \<open>I\<close> in a block, where the reverse iterator moves after the
  body: the block may have grown in front of \<open>I\<close> meanwhile.\<close>

fun prev_inst :: "Instruction list \<Rightarrow> Instruction \<Rightarrow> Instruction option" where
  "prev_inst [] I = None"
| "prev_inst [x] I = None"
| "prev_inst (x # y # rest) I = (if y = I then Some x else prev_inst (y # rest) I)"

text \<open>The loop \<^verbatim>\<open>for (auto it = BB.rbegin(); it != BB.rend(); ++it)\<close>, from the
  instruction \<open>I\<close> on.\<close>

partial_function (option) LocalScan_insts ::
  "LateLowerGCFrame \<Rightarrow> BasicBlock \<Rightarrow> Instruction \<Rightarrow> IR \<times> State \<Rightarrow> (error + (IR \<times> State)) option" where
  "LocalScan_insts P BB I MS =
     (case LocalScan_inst P BB I (fst MS) (snd MS) of
        None \<Rightarrow> None
      | Some (Inl e) \<Rightarrow> Some (Inl e)
      | Some (Inr MS') \<Rightarrow>
         (case prev_inst (insts (fst MS') BB) I of
            None \<Rightarrow> Some (Inr MS')
          | Some I' \<Rightarrow> LocalScan_insts P BB I' MS'))"

text \<open>The pre-seeding of the dataflow variables at the end of the block.\<close>

definition PreSeed :: "BBState \<Rightarrow> BBState" where
  "PreSeed BBS = BBS\<lparr> LiveIn := bv_or (UpExposedUses BBS) (UpExposedUsesUnrooted BBS),
                       UnrootedOut := DownExposedUnrooted BBS, Done := True \<rparr>"

definition LocalScan_block ::
  "LateLowerGCFrame \<Rightarrow> BasicBlock \<Rightarrow> IR \<times> State \<Rightarrow> (error + (IR \<times> State)) option" where
  "LocalScan_block P BB MS =
     (case (if insts (fst MS) BB = [] then Some (Inr MS)
            else LocalScan_insts P BB (last (insts (fst MS) BB)) MS) of
        None \<Rightarrow> None
      | Some (Inl e) \<Rightarrow> Some (Inl e)
      | Some (Inr (M, S)) \<Rightarrow>
          Some (Inr (M, S\<lparr> BBStates := (BBStates S)(BB := PreSeed (BBStates S BB)) \<rparr>)))"

text \<open>The loop \<^verbatim>\<open>for (BasicBlock &BB : F)\<close>.\<close>

fun LocalScan_blocks ::
  "LateLowerGCFrame \<Rightarrow> BasicBlock list \<Rightarrow> IR \<times> State \<Rightarrow> (error + (IR \<times> State)) option" where
  "LocalScan_blocks P [] MS = Some (Inr MS)"
| "LocalScan_blocks P (BB # rest) MS =
     (case LocalScan_block P BB MS of
        None \<Rightarrow> None
      | Some (Inl e) \<Rightarrow> Some (Inl e)
      | Some (Inr MS') \<Rightarrow> LocalScan_blocks P rest MS')"

definition LocalScan :: "LateLowerGCFrame \<Rightarrow> Function \<Rightarrow> IR \<Rightarrow> (error + (IR \<times> State)) option" where
  "LocalScan P F M = LocalScan_blocks P (Blocks F) (M, State0)"

section \<open>CleanupIR\<close>

text \<open>
  Modelled from the spec: the calling conventions \<^verbatim>\<open>JLCALL_CC\<close> and
  \<^verbatim>\<open>JLCALL_F_CC\<close> of \<^verbatim>\<open>codegen_shared.h\<close>, which is not part of the source at
  hand: the spec's calling-convention marker for variadic-pointer dispatches, the second
  for a call whose first argument is the function object. The numbers are Julia's.
\<close>

definition JLCALL_CC :: nat where "JLCALL_CC = 36"
definition JLCALL_F_CC :: nat where "JLCALL_F_CC = 37"

text \<open>
  What CleanupIR puts in the place of a call it erases. For a call of one of the two
  jlcall conventions: the arguments the new call keeps in front, its argument-array
  operand, its argument count (an \<^verbatim>\<open>i32\<close> constant) and the stores of the other
  arguments into the slots of the scratch array.
\<close>

datatype ArgArray = NullArgArray | FrameArgArray

datatype Replacement =
    NoReplacement
  | PtrToIntInst "Value option"
  | BigAllocCall Value nat Value
  | PoolAllocCall Value int int Value
  | JLCallLowered "Value list" ArgArray "32 word" "(Value \<times> int) list"
  | BundleStripped

text \<open>The scratch alloca \<^verbatim>\<open>Frame\<close> at the end: never created (no
  \<^verbatim>\<open>T_prjlvalue\<close>), erased, or kept with its size.\<close>

datatype FrameFate = NoFrame | FrameErased | FrameSized nat

record CleanupState =
  maxframeargs :: nat
  Replaced :: "(Instruction \<times> Replacement) list"
  ChangesMade :: bool

text \<open>\<^verbatim>\<open>size_t nframeargs = nargs - (CC == JLCALL_F_CC)\<close>, in 64 bits.\<close>

definition nframeargs_of :: "CallInfo \<Rightarrow> nat" where
  "nframeargs_of CI =
     nat ((int (length (ArgOperands CI)) - (if CallingConv CI = JLCALL_F_CC then 1 else 0)) mod 2 ^ 64)"

text \<open>The lowering of a jlcall: \<^verbatim>\<open>*(it++)\<close> on a call of \<^verbatim>\<open>JLCALL_F_CC\<close>
  without arguments reads past the arguments.\<close>

definition LowerJLCall :: "LateLowerGCFrame \<Rightarrow> CallInfo \<Rightarrow> error + Replacement" where
  "LowerJLCall P CI =
     (if T_prjlvalue P = None then Inl (AssertionFailed ''T_prjlvalue'')
      else if CallingConv CI = JLCALL_F_CC \<and> ArgOperands CI = [] then Inl OutOfBounds
      else let front = (if CallingConv CI = JLCALL_F_CC then [hd (ArgOperands CI)] else []);
               framed = (if CallingConv CI = JLCALL_F_CC then tl (ArgOperands CI) else ArgOperands CI)
           in Inr (JLCallLowered front
                     (if nframeargs_of CI = 0 then NullArgArray else FrameArgArray)
                     (word_of_nat (nframeargs_of CI))
                     (zip framed (map int [0..<length framed]))))"

text \<open>The lowering of \<^verbatim>\<open>julia.gc_alloc_obj\<close>; \<open>classify\<close> stands for
  \<^verbatim>\<open>jl_gc_classify_pools\<close>, which returns the pool offset and the object size, and
  \<open>PtrSize\<close> for \<^verbatim>\<open>sizeof(void*)\<close>.\<close>

definition LowerAllocObj ::
  "(nat \<Rightarrow> int \<times> int) \<Rightarrow> nat \<Rightarrow> IR \<Rightarrow> CallInfo \<Rightarrow> error + Replacement" where
  "LowerAllocObj classify PtrSize M CI =
     (case ArgOperands CI of
        [ptls, szv, tag] \<Rightarrow>
          (case kind M szv of
             ConstantInt sz \<Rightarrow>
               (case classify sz of (offset, osize) \<Rightarrow>
                  if offset < 0 then Inr (BigAllocCall ptls ((sz + PtrSize) mod 2 ^ 64) tag)
                  else Inr (PoolAllocCall ptls offset osize tag))
           | _ \<Rightarrow> Inl (AssertionFailed ''cast<ConstantInt>''))
      | _ \<Rightarrow> Inl (AssertionFailed ''CI->getNumArgOperands() == 3''))"

text \<open>The body of the loop for a call. A call has its arguments, the operands of its
  bundles and its callee as operands, so the test
  \<^verbatim>\<open>CI->getNumArgOperands() == CI->getNumOperands()\<close> compares the number of arguments
  with a larger number.\<close>

definition CleanupIR_call ::
  "LateLowerGCFrame \<Rightarrow> (nat \<Rightarrow> int \<times> int) \<Rightarrow> nat \<Rightarrow> IR \<Rightarrow> Instruction \<Rightarrow> CallInfo \<Rightarrow> CleanupState
     \<Rightarrow> error + CleanupState" where
  "CleanupIR_call P classify PtrSize M I CI st =
     (let replaced = (\<lambda>r st. Inr (st\<lparr> Replaced := Replaced st @ [(I, r)], ChangesMade := True \<rparr>))
      in if gc_flush_func P \<noteq> None \<and> CalledFunction CI = gc_flush_func P
         then replaced NoReplacement st
         else if pointer_from_objref_func P \<noteq> None \<and> CalledFunction CI = pointer_from_objref_func P
         then replaced (PtrToIntInst (case ArgOperands CI @ BundleOperands CI of
                                         [] \<Rightarrow> None | a # _ \<Rightarrow> Some a)) st
         else if alloc_obj_func P \<noteq> None \<and> CalledFunction CI = alloc_obj_func P
         then (case LowerAllocObj classify PtrSize M CI of
                 Inl e \<Rightarrow> Inl e
               | Inr r \<Rightarrow> replaced r st)
         else if CallingConv CI = JLCALL_CC \<or> CallingConv CI = JLCALL_F_CC
         then (case LowerJLCall P CI of
                 Inl e \<Rightarrow> Inl e
               | Inr r \<Rightarrow> replaced r (st\<lparr> maxframeargs := max (maxframeargs st) (nframeargs_of CI) \<rparr>))
         else if length (ArgOperands CI)
                   = length (ArgOperands CI) + length (BundleOperands CI) + 1
         then Inr st
         else replaced BundleStripped st)"

text \<open>The loop over the instructions of a block and the loop over the blocks. The
  instructions CleanupIR inserts come before the call it is at, and the iterator moves
  on to the instruction after the erased call.\<close>

fun CleanupIR_insts ::
  "LateLowerGCFrame \<Rightarrow> (nat \<Rightarrow> int \<times> int) \<Rightarrow> nat \<Rightarrow> IR \<Rightarrow> Instruction list \<Rightarrow> CleanupState
     \<Rightarrow> error + CleanupState" where
  "CleanupIR_insts P classify PtrSize M [] st = Inr st"
| "CleanupIR_insts P classify PtrSize M (I # rest) st =
     (case kind M I of
        CallInst CI \<Rightarrow>
          (case CleanupIR_call P classify PtrSize M I CI st of
             Inl e \<Rightarrow> Inl e
           | Inr st' \<Rightarrow> CleanupIR_insts P classify PtrSize M rest st')
      | _ \<Rightarrow> CleanupIR_insts P classify PtrSize M rest st)"

fun CleanupIR_blocks ::
  "LateLowerGCFrame \<Rightarrow> (nat \<Rightarrow> int \<times> int) \<Rightarrow> nat \<Rightarrow> IR \<Rightarrow> BasicBlock list \<Rightarrow> CleanupState
     \<Rightarrow> error + CleanupState" where
  "CleanupIR_blocks P classify PtrSize M [] st = Inr st"
| "CleanupIR_blocks P classify PtrSize M (BB # rest) st =
     (case CleanupIR_insts P classify PtrSize M (insts M BB) st of
        Inl e \<Rightarrow> Inl e
      | Inr st' \<Rightarrow> CleanupIR_blocks P classify PtrSize M rest st')"

record CleanupResult =
  Replacements :: "(Instruction \<times> Replacement) list"
  Frame :: FrameFate
  Changed :: bool

definition CleanupIR ::
  "LateLowerGCFrame \<Rightarrow> (nat \<Rightarrow> int \<times> int) \<Rightarrow> nat \<Rightarrow> Function \<Rightarrow> IR \<Rightarrow> error + CleanupResult" where
  "CleanupIR P classify PtrSize F M =
     (case CleanupIR_blocks P classify PtrSize M (Blocks F)
             \<lparr> maxframeargs = 0, Replaced = [], ChangesMade = False \<rparr> of
        Inl e \<Rightarrow> Inl e
      | Inr st \<Rightarrow>
          Inr \<lparr> Replacements = Replaced st,
                Frame = (if T_prjlvalue P = None then NoFrame
                         else if maxframeargs st = 0 then FrameErased
                         else FrameSized (maxframeargs st)),
                Changed = ChangesMade st \<rparr>)"

section \<open>The pass\<close>

text \<open>
  A module, as far as \<^verbatim>\<open>doInitialization\<close> looks at it: the return type of each of
  its functions, by name. \<^verbatim>\<open>M.getFunction(Name)\<close> is the function of that name or
  null.
\<close>

type_synonym Module = "string \<rightharpoonup> Ty"

definition getFunction :: "Module \<Rightarrow> string \<Rightarrow> string option" where
  "getFunction Mod name = (if Mod name = None then None else Some name)"

definition getElementType :: "Ty \<Rightarrow> error + Ty" where
  "getElementType T = (case T of PointerTy E _ \<Rightarrow> Inr E | _ \<Rightarrow> Inl (AssertionFailed ''cast<PointerType>''))"

definition doInitialization :: "Module \<Rightarrow> error + LateLowerGCFrame" where
  "doInitialization Mod =
     (let members = (\<lambda>T. \<lparr> T_prjlvalue = T,
                            ptls_getter = getFunction Mod ''jl_get_ptls_states'',
                            gc_flush_func = getFunction Mod ''julia.gcroot_flush'',
                            pointer_from_objref_func = getFunction Mod ''julia.pointer_from_objref'',
                            alloc_obj_func = getFunction Mod ''julia.gc_alloc_obj'' \<rparr>)
      in case Mod ''julia.gc_alloc_obj'' of
        Some RT \<Rightarrow>
          (case getElementType RT of
             Inl e \<Rightarrow> Inl e
           | Inr _ \<Rightarrow> Inr (members (Some RT)))
      | None \<Rightarrow>
          (case Mod ''jl_get_ptls_states'' of
             Some RT \<Rightarrow>
               (case getElementType RT of Inl e \<Rightarrow> Inl e | Inr T_ppjlvalue \<Rightarrow>
                case getElementType T_ppjlvalue of Inl e \<Rightarrow> Inl e | Inr T_pjlvalue \<Rightarrow>
                case getElementType T_pjlvalue of Inl e \<Rightarrow> Inl e | Inr T_jlvalue \<Rightarrow>
                  Inr (members (Some (PointerTy T_jlvalue Tracked))))
           | None \<Rightarrow> Inr (members None)))"

text \<open>The search of \<^verbatim>\<open>runOnFunction\<close> for the call of the getter of the thread-local
  state in the entry block.\<close>

definition find_ptlsStates :: "LateLowerGCFrame \<Rightarrow> IR \<Rightarrow> Instruction list \<Rightarrow> Instruction option" where
  "find_ptlsStates P M Is =
     List.find (\<lambda>I. case kind M I of
                       CallInst CI \<Rightarrow> CalledFunction CI \<noteq> None \<and> CalledFunction CI = ptls_getter P
                     | _ \<Rightarrow> False) Is"

text \<open>What a run of the pass on a function leaves: the frame code of
  PlaceRootsAndUpdateCalls and the replacements of CleanupIR. CleanupIR is run on the
  calls of the function as the local scan leaves it; the instructions that
  PlaceRootsAndUpdateCalls adds hold no call but that of the \<^verbatim>\<open>memset\<close> intrinsic.\<close>

record RunResult =
  FrameCode :: "Inserted list"
  Cleanup :: CleanupResult

definition cleanup_only ::
  "LateLowerGCFrame \<Rightarrow> (nat \<Rightarrow> int \<times> int) \<Rightarrow> nat \<Rightarrow> Function \<Rightarrow> IR \<Rightarrow> Inserted list \<Rightarrow> error + RunResult" where
  "cleanup_only P classify PtrSize F M code =
     (case CleanupIR P classify PtrSize F M of
        Inl e \<Rightarrow> Inl e
      | Inr c \<Rightarrow> Inr \<lparr> FrameCode = code, Cleanup = c \<rparr>)"

definition runOnFunction ::
  "LateLowerGCFrame \<Rightarrow> (nat \<Rightarrow> int \<times> int) \<Rightarrow> nat \<Rightarrow> Function \<Rightarrow> IR \<Rightarrow> (error + RunResult) option" where
  "runOnFunction P classify PtrSize F M =
     (if ptls_getter P = None then Some (cleanup_only P classify PtrSize F M [])
      else case Blocks F of
        [] \<Rightarrow> Some (Inl NullPointer)
      | Entry # _ \<Rightarrow>
         (case find_ptlsStates P M (insts M Entry) of
            None \<Rightarrow> Some (cleanup_only P classify PtrSize F M [])
          | Some ptlsStates \<Rightarrow>
             (case LocalScan P F M of
                None \<Rightarrow> None
              | Some (Inl e) \<Rightarrow> Some (Inl e)
              | Some (Inr (M', S)) \<Rightarrow>
                 (case PlaceRoots_pipeline PtrSize F (parent M') S of
                    None \<Rightarrow> None
                  | Some (Inl e) \<Rightarrow> Some (Inl e)
                  | Some (Inr code) \<Rightarrow> Some (cleanup_only P classify PtrSize F M' code)))))"

section \<open>Facts about BitVectors\<close>

lemma length_bv_resize [simp]: "length (bv_resize N BV) = N"
  by (simp add: bv_resize_def)

lemma nth_bv_resize: "i < N \<Longrightarrow> bv_resize N BV ! i = (i < length BV \<and> BV ! i)"
  by (auto simp: bv_resize_def nth_append)

lemma length_bv_or [simp]: "length (bv_or A B) = max (length A) (length B)"
  by (simp add: bv_or_def)

lemma length_bv_and [simp]: "length (bv_and A B) = length A"
  by (simp add: bv_and_def)

lemma length_bv_flip [simp]: "length (bv_flip A) = length A"
  by (simp add: bv_flip_def)

lemma bits_bv_or [simp]: "bits (bv_or A B) = bits A \<union> bits B"
  by (auto simp: bits_def bv_or_def nth_bv_resize)

lemma bits_bv_and [simp]: "bits (bv_and A B) = bits A \<inter> bits B"
  by (auto simp: bits_def bv_and_def nth_bv_resize)

lemma bits_bv_flip: "bits (bv_flip A) = {i. i < length A \<and> \<not> A ! i}"
  by (auto simp: bits_def bv_flip_def)

lemma bits_bv_resize: "bits (bv_resize N A) = bits A \<inter> {..<N}"
  by (auto simp: bits_def nth_bv_resize)

lemma bits_Nil [simp]: "bits [] = {}"
  by (simp add: bits_def)

lemma bits_replicate_False [simp]: "bits (replicate n False) = {}"
  by (simp add: bits_def)

lemma bv_eq_bits: "bv_eq A B \<longleftrightarrow> bits A = bits B"
proof -
  let ?n = "max (length A) (length B)"
  have "bv_resize ?n A = bv_resize ?n B \<longleftrightarrow> (\<forall>i < ?n. bv_resize ?n A ! i = bv_resize ?n B ! i)"
    by (simp add: list_eq_iff_nth_eq)
  also have "\<dots> \<longleftrightarrow> (\<forall>i < ?n. (i \<in> bits A) = (i \<in> bits B))"
    by (simp add: nth_bv_resize bits_def)
  also have "\<dots> \<longleftrightarrow> bits A = bits B"
  proof
    assume h: "\<forall>i < ?n. (i \<in> bits A) = (i \<in> bits B)"
    have "\<And>i. (i \<in> bits A) = (i \<in> bits B)"
    proof -
      fix i show "(i \<in> bits A) = (i \<in> bits B)"
      proof (cases "i < ?n")
        case True with h show ?thesis by simp
      next
        case False then show ?thesis by (auto simp: bits_def)
      qed
    qed
    then show "bits A = bits B" by blast
  next
    assume "bits A = bits B" then show "\<forall>i < ?n. (i \<in> bits A) = (i \<in> bits B)" by simp
  qed
  finally show ?thesis by (simp add: bv_eq_def)
qed

lemma finite_bits [simp]: "finite (bits A)"
  by (simp add: bits_def)

lemma bits_update_True: "i < length A \<Longrightarrow> bits (A[i := True]) = insert i (bits A)"
  by (auto simp: bits_def nth_list_update)

lemma bits_Cons: "bits (b # BV) = (if b then insert 0 (Suc ` bits BV) else Suc ` bits BV)"
proof -
  have "\<And>i. i \<in> bits (b # BV) \<longleftrightarrow> (i = 0 \<and> b) \<or> (\<exists>j. i = Suc j \<and> j \<in> bits BV)"
  proof -
    fix i show "i \<in> bits (b # BV) \<longleftrightarrow> (i = 0 \<and> b) \<or> (\<exists>j. i = Suc j \<and> j \<in> bits BV)"
      by (cases i) (simp_all add: bits_def)
  qed
  then show ?thesis by (auto simp: image_iff)
qed

lemma replicate_numeral: "replicate (numeral k) x = x # replicate (pred_numeral k) x"
  by (simp add: numeral_eq_Suc)

text \<open>The definitions that evaluate the model on a concrete state.\<close>

lemmas eval_defs = ComputeLiveSets_def ComputeLiveSet_def LiveSetBeforeRefinement_def vec_at_def
  bv_or_def bv_and_def bv_resize_def ApplyRefinements_def ApplyRefinements_loop.simps find_first_def find_from_def
  find_next_def ApplyRefinement_def HasBitSet_def as_unsigned_def set_bits_def State0_def
  BBState0_def replicate_numeral

lemmas flow_defs = ComputeLiveness_pass_def ComputeLiveness_block_def update_LiveOut_def
  update_LiveIn_def update_UnrootedIn_def NewLiveOut_def NewLiveIn_def NewUnrootedIn_def
  MaybeResize_def bv_eq_def bv_flip_def predecessors_def

lemmas color_defs = ColorRoots_def PreAssign_def ColorElement_def PEO_next_def
  raise_Neighbor_def PEOIterator_init_def finalized_def pop_Levels.simps pop_LastLevel.simps
  vec_at_def set_bits_def find_first_def find_from_def bv_flip_def replicate_numeral
  upt_conv_Cons


section \<open>Properties of the live sets\<close>

subsection \<open>The refinement pass\<close>

text \<open>Whether the refinement loop, arriving at the set bit \<open>j\<close>, leaves it set: \<open>F\<close> is
  the vector after the loop, \<open>LS\<close> the one before. At that moment the bits below \<open>j\<close>
  have their final values and the bits from \<open>j\<close> on are untouched.\<close>

definition survives :: "(int \<rightharpoonup> int) \<Rightarrow> BitVector \<Rightarrow> BitVector \<Rightarrow> nat \<Rightarrow> bool" where
  "survives R F LS j =
     (case R (int j) of
        None \<Rightarrow> True
      | Some r \<Rightarrow> r \<noteq> -1 \<and>
          \<not> (if as_unsigned r < j then HasBitSet F (as_unsigned r) else HasBitSet LS (as_unsigned r)))"

lemma ApplyRefinement_nth:
  "j < length LS \<Longrightarrow> ApplyRefinement R i LS ! j =
     (if j = i then LS ! i \<and> (case R (int i) of None \<Rightarrow> True
          | Some r \<Rightarrow> r \<noteq> -1 \<and> \<not> HasBitSet LS (as_unsigned r))
      else LS ! j)"
  by (auto simp: ApplyRefinement_def split: option.splits)

lemma ApplyRefinements_loop_spec:
  "length (ApplyRefinements_loop R Idx LS) = length LS \<and>
   (\<forall>j. j < length LS \<and> (Idx < 0 \<or> int j < Idx) \<longrightarrow> ApplyRefinements_loop R Idx LS ! j = LS ! j) \<and>
   (\<forall>j. j < length LS \<and> 0 \<le> Idx \<and> Idx \<le> int j \<longrightarrow>
        (ApplyRefinements_loop R Idx LS ! j \<longleftrightarrow> LS ! j \<and> survives R (ApplyRefinements_loop R Idx LS) LS j))"
proof (induction R Idx LS rule: ApplyRefinements_loop.induct)
  case (1 R Idx LS)
  show ?case
  proof (cases "Idx < 0")
    case True
    then show ?thesis by (simp add: ApplyRefinements_loop.simps [of R Idx LS])
  next
    case False
    define i where "i = nat Idx"
    define LS' where "LS' = ApplyRefinement R i LS"
    define n where "n = find_next LS' i"
    define F where "F = ApplyRefinements_loop R n LS'"
    have Idx: "Idx = int i" using False by (simp add: i_def)
    have F_eq: "ApplyRefinements_loop R Idx LS = F"
      using False by (simp add: ApplyRefinements_loop.simps [of R Idx LS] F_def n_def LS'_def i_def)
    have len': "length LS' = length LS" by (simp add: LS'_def)
    from "1.IH" [OF False] have
      lenF: "length F = length LS'" and
      low: "\<And>j. j < length LS' \<Longrightarrow> n < 0 \<or> int j < n \<Longrightarrow> F ! j = LS' ! j" and
      high: "\<And>j. j < length LS' \<Longrightarrow> 0 \<le> n \<Longrightarrow> n \<le> int j \<Longrightarrow> (F ! j \<longleftrightarrow> LS' ! j \<and> survives R F LS' j)"
      by (simp_all add: F_def n_def LS'_def i_def)
    have nxt: "(n = -1 \<and> (\<forall>j. i < j \<and> j < length LS' \<longrightarrow> \<not> LS' ! j))
       \<or> (\<exists>m. n = int m \<and> i < m \<and> m < length LS' \<and> (\<forall>j. i < j \<and> j < m \<longrightarrow> \<not> LS' ! j))"
      using find_from_cases [of LS' "Suc i"] by (auto simp: n_def find_next_def Suc_le_eq)
    have below: "\<And>j. j < length LS \<Longrightarrow> j \<le> i \<Longrightarrow> F ! j = LS' ! j"
      using low nxt len' by auto
    have gap: "\<And>j. j < length LS \<Longrightarrow> i < j \<Longrightarrow> n < 0 \<or> int j < n \<Longrightarrow> F ! j = False \<and> LS ! j = False"
    proof -
      fix j assume j: "j < length LS" "i < j" "n < 0 \<or> int j < n"
      then have "\<not> LS' ! j" using nxt len' by auto
      moreover have "F ! j = LS' ! j" using low j len' by simp
      moreover have "LS' ! j = LS ! j" using j by (simp add: LS'_def ApplyRefinement_nth)
      ultimately show "F ! j = False \<and> LS ! j = False" by simp
    qed
    have hb_low: "\<And>u. u < i \<Longrightarrow> HasBitSet F u = HasBitSet LS u"
    proof -
      fix u assume u: "u < i"
      show "HasBitSet F u = HasBitSet LS u"
      proof (cases "u < length LS")
        case True
        then have "F ! u = LS' ! u" using below u by simp
        also have "\<dots> = LS ! u" using True u by (simp add: LS'_def ApplyRefinement_nth)
        finally show ?thesis by (simp add: HasBitSet_def lenF len')
      next
        case False
        then show ?thesis by (simp add: HasBitSet_def lenF len')
      qed
    qed
    have hb_high: "\<And>u j. i < j \<Longrightarrow> j \<le> u \<Longrightarrow> HasBitSet LS' u = HasBitSet LS u"
      by (auto simp: HasBitSet_def len' LS'_def ApplyRefinement_nth)
    have surv_high: "\<And>j. i < j \<Longrightarrow> survives R F LS' j = survives R F LS j"
      using hb_high by (auto simp: survives_def split: option.splits)
    have at_i: "i < length LS \<Longrightarrow> (F ! i \<longleftrightarrow> LS ! i \<and> survives R F LS i)"
    proof -
      assume i: "i < length LS"
      have "F ! i = LS' ! i" using below i by simp
      moreover have "LS' ! i = (LS ! i \<and> (case R (int i) of None \<Rightarrow> True
          | Some r \<Rightarrow> r \<noteq> -1 \<and> \<not> HasBitSet LS (as_unsigned r)))"
        using i by (simp add: LS'_def ApplyRefinement_nth)
      moreover have "survives R F LS i = (case R (int i) of None \<Rightarrow> True
          | Some r \<Rightarrow> r \<noteq> -1 \<and> \<not> HasBitSet LS (as_unsigned r))"
        using hb_low by (auto simp: survives_def split: option.splits)
      ultimately show ?thesis by simp
    qed
    have c1: "length F = length LS" using lenF len' by simp
    have c2: "\<forall>j. j < length LS \<and> (Idx < 0 \<or> int j < Idx) \<longrightarrow> F ! j = LS ! j"
    proof (intro allI impI)
      fix j assume "j < length LS \<and> (Idx < 0 \<or> int j < Idx)"
      then have j: "j < length LS" "j < i" using Idx by auto
      then have "F ! j = LS' ! j" using below by simp
      then show "F ! j = LS ! j" using j by (simp add: LS'_def ApplyRefinement_nth)
    qed
    have c3: "\<forall>j. j < length LS \<and> 0 \<le> Idx \<and> Idx \<le> int j \<longrightarrow> (F ! j \<longleftrightarrow> LS ! j \<and> survives R F LS j)"
    proof (intro allI impI)
      fix j assume "j < length LS \<and> 0 \<le> Idx \<and> Idx \<le> int j"
      then have j: "j < length LS" "i \<le> j" using Idx by auto
      show "F ! j \<longleftrightarrow> LS ! j \<and> survives R F LS j"
      proof (cases "j = i")
        case True
        with at_i j show ?thesis by simp
      next
        case False
        then have ij: "i < j" using j by simp
        show ?thesis
        proof (cases "n < 0 \<or> int j < n")
          case True
          with gap [OF j(1) ij] show ?thesis by simp
        next
          case False
          then have "0 \<le> n" "n \<le> int j" by simp_all
          with high [of j] j len' have "F ! j \<longleftrightarrow> LS' ! j \<and> survives R F LS' j" by simp
          moreover have "LS' ! j = LS ! j" using j ij by (simp add: LS'_def ApplyRefinement_nth)
          ultimately show ?thesis using surv_high [OF ij] by simp
        qed
      qed
    qed
    show ?thesis unfolding F_eq using c1 c2 c3 by blast
  qed
qed

lemma find_first_nonneg_or: "find_first LS = -1 \<or> 0 \<le> find_first LS"
  using find_from_cases [of LS 0] by (auto simp: find_first_def)

lemma find_first_none: "find_first LS = -1 \<Longrightarrow> j < length LS \<Longrightarrow> \<not> LS ! j"
  using find_from_cases [of LS 0] by (auto simp: find_first_def)

lemma find_first_some: "find_first LS = int m \<Longrightarrow> j < m \<Longrightarrow> \<not> LS ! j"
  using find_from_cases [of LS 0] by (auto simp: find_first_def)

lemma HasBitSet_bits: "HasBitSet BV u \<longleftrightarrow> u \<in> bits BV"
  by (simp add: HasBitSet_def bits_def)

text \<open>
  C4 (amended). The refinement pass visits each identifier of the live set once, in
  increasing order. The identifier \<open>i\<close> stays in the set exactly when it has no
  refinement entry, or its entry \<open>r\<close> is not \<open>-1\<close> and \<open>r\<close> is not in the live
  set as it stands when \<open>i\<close> is examined: for \<open>r\<close> below \<open>i\<close> that is the final
  set (the removals of smaller identifiers are already done), for \<open>r\<close> from \<open>i\<close> on
  it is the set before the pass.
\<close>

theorem ApplyRefinements_single_pass:
  "i \<in> bits (ApplyRefinements R LS) \<longleftrightarrow>
     i \<in> bits LS \<and>
     (case R (int i) of
        None \<Rightarrow> True
      | Some r \<Rightarrow> r \<noteq> -1 \<and>
          \<not> (if as_unsigned r < i then as_unsigned r \<in> bits (ApplyRefinements R LS)
             else as_unsigned r \<in> bits LS))"
proof -
  define F where "F = ApplyRefinements R LS"
  note spec = ApplyRefinements_loop_spec [of R "find_first LS" LS, folded ApplyRefinements_def F_def]
  have len: "length F = length LS" using spec by simp
  have surv: "survives R F LS i =
     (case R (int i) of None \<Rightarrow> True
      | Some r \<Rightarrow> r \<noteq> -1 \<and> \<not> (if as_unsigned r < i then as_unsigned r \<in> bits F else as_unsigned r \<in> bits LS))"
    by (simp add: survives_def HasBitSet_bits split: option.splits)
  have "i < length LS \<Longrightarrow> (F ! i \<longleftrightarrow> LS ! i \<and> survives R F LS i)"
  proof -
    assume i: "i < length LS"
    show ?thesis
    proof (cases "find_first LS < 0 \<or> int i < find_first LS")
      case True
      then have eq: "F ! i = LS ! i" using spec i by blast
      have "\<not> LS ! i"
      proof (cases "find_first LS < 0")
        case True
        then have "find_first LS = -1" using find_first_nonneg_or [of LS] by auto
        then show ?thesis using find_first_none i by blast
      next
        case False
        then obtain m where m: "find_first LS = int m" by (metis int_nat_eq not_less)
        with True have "i < m" by simp
        with m show ?thesis using find_first_some by blast
      qed
      with eq show ?thesis by simp
    next
      case False
      then have "0 \<le> find_first LS \<and> find_first LS \<le> int i" by simp
      with spec i show ?thesis by blast
    qed
  qed
  then have "i \<in> bits F \<longleftrightarrow> i \<in> bits LS \<and> survives R F LS i"
    using len by (auto simp: bits_def)
  with surv show ?thesis unfolding F_def by simp
qed

text \<open>The chain \<open>1 \<mapsto> 0 \<mapsto> -1\<close> on the live set \<open>{0, 1}\<close>: \<open>0\<close> goes, \<open>1\<close> stays.\<close>

theorem ApplyRefinements_single_pass_witness:
  "1 \<in> bits (ApplyRefinements [0 \<mapsto> -1, 1 \<mapsto> 0] [True, True]) \<and>
   0 \<notin> bits (ApplyRefinements [0 \<mapsto> -1, 1 \<mapsto> 0] [True, True])"
  using ApplyRefinements_single_pass [of 1 "[0 \<mapsto> -1, 1 \<mapsto> 0]" "[True, True]"]
        ApplyRefinements_single_pass [of 0 "[0 \<mapsto> -1, 1 \<mapsto> 0]" "[True, True]"]
  by (simp add: bits_def as_unsigned_def)

text \<open>
  C4 as stated, with membership read in the live set of the safepoint before the pass,
  fails on the same chain: the refinement of \<open>1\<close> is \<open>0\<close>, which is in the live set,
  and still \<open>1\<close> is not removed, because \<open>0\<close> was removed first.
\<close>

theorem ApplyRefinements_not_declarative:
  "1 \<in> bits [True, True] \<and> [0 \<mapsto> -1, 1 \<mapsto> (0::int)] 1 = Some 0 \<and> as_unsigned 0 \<in> bits [True, True]
   \<and> 1 \<in> bits (ApplyRefinements [0 \<mapsto> -1, 1 \<mapsto> 0] [True, True])"
  by (simp add: ApplyRefinements_def ApplyRefinements_loop.simps find_first_def find_next_def
      find_from_def ApplyRefinement_def HasBitSet_def as_unsigned_def bits_def)

subsection \<open>Live across the block\<close>

lemma AddLiveIfLiveOut_grows:
  "AddLiveIfLiveOut LO Ls LS = Inr L \<Longrightarrow> bits LS \<subseteq> bits L \<and> length L = length LS"
proof (induction Ls arbitrary: LS)
  case Nil
  then show ?case by simp
next
  case (Cons Live rest)
  show ?case
  proof (cases "HasBitSet LO (as_unsigned Live)")
    case True
    with Cons.prems have inb: "as_unsigned Live < length LS"
      and rec: "AddLiveIfLiveOut LO rest (LS[as_unsigned Live := True]) = Inr L"
      by (auto split: if_splits)
    from Cons.IH [OF rec] inb show ?thesis by (auto simp: bits_update_True)
  next
    case False
    with Cons.prems have "AddLiveIfLiveOut LO rest LS = Inr L" by simp
    from Cons.IH [OF this] show ?thesis .
  qed
qed

lemma vec_at_Inr: "vec_at xs i = Inr x \<longleftrightarrow> 0 \<le> i \<and> nat i < length xs \<and> x = xs ! nat i"
  by (auto simp: vec_at_def)

lemma LiveSetBeforeRefinement_super:
  assumes "LiveSetBeforeRefinement S BB idx = Inr L"
  shows "bits (LiveIn (BBStates S BB)) \<inter> bits (LiveOut (BBStates S BB)) \<subseteq> bits L"
    and "bits (LiveSets S ! nat idx) \<subseteq> bits L"
    and "0 \<le> idx" and "nat idx < length (LiveSets S)"
proof -
  from assms obtain LS LiveIf where
    LS: "vec_at (LiveSets S) idx = Inr LS" and
    add: "AddLiveIfLiveOut (LiveOut (BBStates S BB)) LiveIf
            (bv_or LS (bv_and (LiveIn (BBStates S BB)) (LiveOut (BBStates S BB)))) = Inr L"
    by (auto simp: LiveSetBeforeRefinement_def split: sum.splits)
  from AddLiveIfLiveOut_grows [OF add] LS
  show "bits (LiveIn (BBStates S BB)) \<inter> bits (LiveOut (BBStates S BB)) \<subseteq> bits L"
    and "bits (LiveSets S ! nat idx) \<subseteq> bits L"
    and "0 \<le> idx" and "nat idx < length (LiveSets S)"
    by (auto simp: vec_at_Inr)
qed

lemma LiveSetBeforeRefinement_cong:
  assumes "BBStates S1 = BBStates S" "LiveIfLiveOut S1 = LiveIfLiveOut S"
    "length (LiveSets S1) = length (LiveSets S)"
    "0 \<le> idx \<longrightarrow> nat idx < length (LiveSets S) \<longrightarrow> LiveSets S1 ! nat idx = LiveSets S ! nat idx"
  shows "LiveSetBeforeRefinement S1 BB idx = LiveSetBeforeRefinement S BB idx"
  using assms by (auto simp: LiveSetBeforeRefinement_def vec_at_def)

lemma ComputeLiveSets_safepoints_spec:
  assumes "ComputeLiveSets_safepoints gp xs S = Inr S'" "distinct (map snd xs)"
  shows "S' = S\<lparr>LiveSets := LiveSets S'\<rparr> \<and> length (LiveSets S') = length (LiveSets S) \<and>
     (\<forall>(sp, idx) \<in> set xs. ComputeLiveSet S (gp sp) idx = Inr (LiveSets S' ! nat idx)) \<and>
     (\<forall>k. int k \<notin> snd ` set xs \<longrightarrow> LiveSets S' ! k = LiveSets S ! k)"
  using assms
proof (induction xs arbitrary: S)
  case Nil
  then show ?case by simp
next
  case (Cons x xs)
  obtain sp idx where x: "x = (sp, idx)" by (cases x)
  from Cons.prems x obtain LS where
    cls: "ComputeLiveSet S (gp sp) idx = Inr LS" and
    rec: "ComputeLiveSets_safepoints gp xs (S\<lparr>LiveSets := (LiveSets S)[nat idx := LS]\<rparr>) = Inr S'"
    by (auto split: sum.splits)
  let ?S1 = "S\<lparr>LiveSets := (LiveSets S)[nat idx := LS]\<rparr>"
  from Cons.prems x have dist: "distinct (map snd xs)" and fresh: "idx \<notin> snd ` set xs" by auto
  note IH = Cons.IH [OF rec dist]
  from cls obtain L where L: "LiveSetBeforeRefinement S (gp sp) idx = Inr L"
    by (auto simp: ComputeLiveSet_def split: sum.splits)
  note rng = LiveSetBeforeRefinement_super(3,4) [OF L]
  have a: "S' = S\<lparr>LiveSets := LiveSets S'\<rparr>"
  proof -
    from IH have "S' = ?S1\<lparr>LiveSets := LiveSets S'\<rparr>" by blast
    then show ?thesis by simp
  qed
  have b: "length (LiveSets S') = length (LiveSets S)" using IH by simp
  have keep: "LiveSets S' ! nat idx = LS"
  proof -
    have "int (nat idx) \<notin> snd ` set xs" using fresh rng by simp
    with IH have "LiveSets S' ! nat idx = LiveSets ?S1 ! nat idx" by blast
    then show ?thesis using rng by simp
  qed
  have c: "\<forall>(sp', idx') \<in> set (x # xs). ComputeLiveSet S (gp sp') idx' = Inr (LiveSets S' ! nat idx')"
  proof (clarify)
    fix sp' idx' assume mem: "(sp', idx') \<in> set (x # xs)"
    show "ComputeLiveSet S (gp sp') idx' = Inr (LiveSets S' ! nat idx')"
    proof (cases "(sp', idx') = x")
      case True
      with x cls keep show ?thesis by simp
    next
      case False
      with mem have in_xs: "(sp', idx') \<in> set xs" by simp
      then have ne: "idx' \<noteq> idx" using fresh by force
      from IH in_xs have r: "ComputeLiveSet ?S1 (gp sp') idx' = Inr (LiveSets S' ! nat idx')" by blast
      have "LiveSetBeforeRefinement ?S1 (gp sp') idx' = LiveSetBeforeRefinement S (gp sp') idx'"
        by (rule LiveSetBeforeRefinement_cong) (use ne rng in \<open>auto simp: nth_list_update\<close>)
      then have "ComputeLiveSet ?S1 (gp sp') idx' = ComputeLiveSet S (gp sp') idx'"
        by (simp add: ComputeLiveSet_def split: sum.splits)
      with r show ?thesis by simp
    qed
  qed
  have d: "\<forall>k. int k \<notin> snd ` set (x # xs) \<longrightarrow> LiveSets S' ! k = LiveSets S ! k"
  proof (intro allI impI)
    fix k assume k: "int k \<notin> snd ` set (x # xs)"
    then have "int k \<notin> snd ` set xs" and "int k \<noteq> idx" using x by auto
    with IH have "LiveSets S' ! k = LiveSets ?S1 ! k" by blast
    moreover have "k \<noteq> nat idx" using \<open>int k \<noteq> idx\<close> rng by auto
    ultimately show "LiveSets S' ! k = LiveSets S ! k" by simp
  qed
  from a b c d show ?case by blast
qed

lemma ComputeInterference_loop_frame:
  "ComputeInterference_loop is S = Inr S' \<Longrightarrow> S' = S\<lparr>Neighbors := Neighbors S'\<rparr>"
proof (induction "is" arbitrary: S)
  case Nil
  then show ?case by simp
next
  case (Cons i rest)
  then obtain NB where
    "ComputeInterference_loop rest (S\<lparr>Neighbors := Neighbors S @ [set_bits NB]\<rparr>) = Inr S'"
    by (auto split: sum.splits)
  from Cons.IH [OF this] show ?case by simp
qed

text \<open>A block with one safepoint and the identifier \<open>0\<close> live in and live out;
  \<open>r\<close> is the refinement entry of \<open>0\<close>, if any.\<close>

definition refined_across_state :: "int option \<Rightarrow> State" where
  "refined_across_state r =
     State0\<lparr> MaxPtrNumber := 0, MaxSafepointNumber := 0,
       BBStates := (\<lambda>_. BBState0)(1 := BBState0\<lparr> LiveIn := [True], LiveOut := [True],
          Safepoints := [0], TopmostSafepoint := 0, HasSafepoint := True, Done := True \<rparr>),
       LoadRefinements := (\<lambda>i. if i = 0 then r else None),
       SafepointNumbering := [(5, 0)], ReverseSafepointNumbering := [5],
       LiveSets := [[]], LiveIfLiveOut := [[]] \<rparr>"

text \<open>
  C2 (amended). For every safepoint \<open>s\<close> of block \<open>B\<close>, the live set of \<open>s\<close> before the
  refinement pass is a superset of \<open>LiveIn[B] \<inter> LiveOut[B]\<close>; the live set finally
  recorded is that set after the refinement pass, and it holds every identifier of
  \<open>LiveIn[B] \<inter> LiveOut[B]\<close> that has no refinement entry.
\<close>

theorem ComputeLiveSets_live_across:
  assumes "ComputeLiveSets getParent S = Inr S'"
    and "distinct (map snd (SafepointNumbering S))"
    and "(Safepoint, idx) \<in> set (SafepointNumbering S)"
  shows "\<exists>L. LiveSetBeforeRefinement S (getParent Safepoint) idx = Inr L
     \<and> bits (LiveIn (BBStates S (getParent Safepoint))) \<inter> bits (LiveOut (BBStates S (getParent Safepoint))) \<subseteq> bits L
     \<and> LiveSets S' ! nat idx = ApplyRefinements (LoadRefinements S) L
     \<and> {i \<in> bits (LiveIn (BBStates S (getParent Safepoint))) \<inter> bits (LiveOut (BBStates S (getParent Safepoint))).
          LoadRefinements S (int i) = None} \<subseteq> bits (LiveSets S' ! nat idx)"
proof -
  from assms(1) obtain S1 where
    one: "ComputeLiveSets_safepoints getParent (SafepointNumbering S) S = Inr S1" and
    two: "ComputeInterference_loop [0..<nat (MaxPtrNumber S1 + 1)] S1 = Inr S'"
    by (auto simp: ComputeLiveSets_def split: sum.splits)
  from ComputeInterference_loop_frame [OF two] have "LiveSets S' = LiveSets S1"
    by (metis State.select_convs(13) State.surjective State.update_convs(7))
  moreover from ComputeLiveSets_safepoints_spec [OF one assms(2)] assms(3)
  have "ComputeLiveSet S (getParent Safepoint) idx = Inr (LiveSets S1 ! nat idx)" by blast
  ultimately obtain L where
    L: "LiveSetBeforeRefinement S (getParent Safepoint) idx = Inr L" and
    fin: "LiveSets S' ! nat idx = ApplyRefinements (LoadRefinements S) L"
    by (auto simp: ComputeLiveSet_def split: sum.splits)
  note sup = LiveSetBeforeRefinement_super(1) [OF L]
  have "{i \<in> bits (LiveIn (BBStates S (getParent Safepoint))) \<inter> bits (LiveOut (BBStates S (getParent Safepoint))).
          LoadRefinements S (int i) = None} \<subseteq> bits (LiveSets S' ! nat idx)"
    using sup by (auto simp: fin ApplyRefinements_single_pass)
  with L sup fin show ?thesis by blast
qed

theorem ComputeLiveSets_live_across_witness:
  "\<exists>S'. ComputeLiveSets (\<lambda>_. 1) (refined_across_state None) = Inr S' \<and> 0 \<in> bits (LiveSets S' ! 0)"
proof -
  let ?S = "refined_across_state None"
  have d: "distinct (map snd (SafepointNumbering ?S))"
    by (simp add: refined_across_state_def)
  have m: "(5, 0) \<in> set (SafepointNumbering ?S)"
    by (simp add: refined_across_state_def)
  obtain S' where r: "ComputeLiveSets (\<lambda>_. 1) ?S = Inr S'"
    by (simp add: refined_across_state_def eval_defs)
  from ComputeLiveSets_live_across [OF r d m]
  have "{i \<in> bits (LiveIn (BBStates ?S 1)) \<inter> bits (LiveOut (BBStates ?S 1)).
          LoadRefinements ?S (int i) = None} \<subseteq> bits (LiveSets S' ! nat 0)"
    by blast
  moreover have "0 \<in> {i \<in> bits (LiveIn (BBStates ?S 1)) \<inter> bits (LiveOut (BBStates ?S 1)).
          LoadRefinements ?S (int i) = None}"
    by (simp add: refined_across_state_def eval_defs bits_def)
  ultimately have "0 \<in> bits (LiveSets S' ! 0)" by auto
  with r show ?thesis by blast
qed

text \<open>
  C2 as stated fails: an identifier that is live in and live out of the block of a
  safepoint, and refined to \<open>-1\<close> (a load from an argument array), is not in the live
  set finally recorded.
\<close>

theorem ComputeLiveSets_drops_live_across:
  "\<exists>S'. ComputeLiveSets (\<lambda>_. 1) (refined_across_state (Some (-1))) = Inr S'
     \<and> 0 \<in> bits (LiveIn (BBStates S' 1)) \<inter> bits (LiveOut (BBStates S' 1))
     \<and> 0 \<notin> bits (LiveSets S' ! 0)"
  by (simp add: refined_across_state_def eval_defs bits_def)

section \<open>Properties of the dataflow\<close>

text \<open>What the C++ types guarantee of a BBState: every size fits \<^verbatim>\<open>unsigned\<close>, and
  the five vectors that MaybeResize resizes together have one size.\<close>

definition sizes_ok :: "BBState \<Rightarrow> bool" where
  "sizes_ok BBS \<longleftrightarrow>
     length (Defs BBS) < 2 ^ 32 \<and> length (PhiOuts BBS) = length (Defs BBS) \<and>
     length (UpExposedUsesUnrooted BBS) = length (Defs BBS) \<and>
     length (UpExposedUses BBS) = length (Defs BBS) \<and>
     length (DownExposedUnrooted BBS) = length (Defs BBS) \<and> length (LiveIn BBS) < 2 ^ 32 \<and>
     length (LiveOut BBS) < 2 ^ 32 \<and> length (UnrootedIn BBS) < 2 ^ 32 \<and>
     length (UnrootedOut BBS) < 2 ^ 32"

lemma bits_fold_bv_or:
  "bits (fold (\<lambda>x New. bv_or New (f x)) xs A) = bits A \<union> (\<Union>x \<in> set xs. bits (f x))"
  by (induction xs arbitrary: A) auto

lemma length_fold_bv_or_less:
  "length A < N \<Longrightarrow> (\<And>x. length (f x) < N) \<Longrightarrow>
   length (fold (\<lambda>x New. bv_or New (f x)) xs A) < N"
  by (induction xs arbitrary: A) auto

lemma bits_NewLiveOut:
  "bits (NewLiveOut F S BB) =
     bits (PhiOuts (BBStates S BB)) \<union> (\<Union>Succ \<in> set (successors F BB). bits (LiveIn (BBStates S Succ)))"
  by (simp add: NewLiveOut_def bits_fold_bv_or)

lemma bits_NewUnrootedIn:
  "bits (NewUnrootedIn F S BB) = (\<Union>Pred \<in> set (predecessors F BB). bits (UnrootedOut (BBStates S Pred)))"
  by (simp add: NewUnrootedIn_def bits_fold_bv_or)

lemma bits_NewLiveIn:
  "bits (NewLiveIn BBS) =
     (bits (LiveOut BBS) \<inter> {i. i < length (Defs BBS) \<and> \<not> Defs BBS ! i})
     \<union> bits (UpExposedUses BBS) \<union> bits (UpExposedUsesUnrooted BBS)"
  by (simp add: NewLiveIn_def bits_bv_flip)

lemma bits_NewLiveIn_exact:
  assumes "length (LiveOut BBS) \<le> length (Defs BBS)"
  shows "bits (NewLiveIn BBS) =
     bits (UpExposedUses BBS) \<union> bits (UpExposedUsesUnrooted BBS) \<union> (bits (LiveOut BBS) - bits (Defs BBS))"
proof -
  have "bits (LiveOut BBS) \<inter> {i. i < length (Defs BBS) \<and> \<not> Defs BBS ! i} = bits (LiveOut BBS) - bits (Defs BBS)"
    using assms by (auto simp: bits_def)
  then show ?thesis by (auto simp: bits_NewLiveIn)
qed

lemma as_unsigned_pred: "0 < n \<Longrightarrow> n \<le> 2 ^ 32 \<Longrightarrow> as_unsigned (int n - 1) = n - 1"
proof -
  assume n: "0 < n" "n \<le> 2 ^ 32"
  then have "0 \<le> int n - 1" "int n - 1 < 2 ^ 32"
    by (simp_all add: of_nat_le_iff [of n "2 ^ 32", symmetric] del: of_nat_le_iff)
  then have "(int n - 1) mod 2 ^ 32 = int n - 1" by simp
  then show ?thesis using n by (simp add: as_unsigned_def nat_diff_distrib)
qed

lemma as_unsigned_minus1: "as_unsigned (- 1) = 4294967295"
  by (simp add: as_unsigned_def)

lemma bits_bv_resize_grow: "length A \<le> N \<Longrightarrow> bits (bv_resize N A) = bits A"
proof -
  assume "length A \<le> N"
  then have "bits A \<subseteq> {..<N}" by (auto simp: bits_def)
  then show ?thesis by (auto simp: bits_bv_resize)
qed

lemma MaybeResize_Suc:
  assumes "Suc k < 2 ^ 32"
  shows "MaybeResize BBS k =
     (if length (Defs BBS) \<le> k
      then BBS\<lparr> Defs := bv_resize (Suc k) (Defs BBS),
                UpExposedUses := bv_resize (Suc k) (UpExposedUses BBS),
                UpExposedUsesUnrooted := bv_resize (Suc k) (UpExposedUsesUnrooted BBS),
                DownExposedUnrooted := bv_resize (Suc k) (DownExposedUnrooted BBS),
                PhiOuts := bv_resize (Suc k) (PhiOuts BBS) \<rparr>
      else BBS)"
proof -
  have "(k + 1) mod 2 ^ 32 = Suc k" using assms by simp
  then show ?thesis unfolding MaybeResize_def by simp
qed

lemma MaybeResize_wrap:
  assumes "length (Defs BBS) < 2 ^ 32"
  shows "MaybeResize BBS 4294967295 =
     BBS\<lparr> Defs := [], UpExposedUses := [], UpExposedUsesUnrooted := [],
          DownExposedUnrooted := [], PhiOuts := [] \<rparr>"
  using assms by (simp add: MaybeResize_def bv_resize_def)

text \<open>The invariant for the equations: sizes fit \<^verbatim>\<open>unsigned\<close>, and Defs is as long as LiveOut.\<close>

definition flow_sizes :: "State \<Rightarrow> bool" where
  "flow_sizes S \<longleftrightarrow>
     (\<forall>B. sizes_ok (BBStates S B) \<and> length (LiveOut (BBStates S B)) \<le> length (Defs (BBStates S B)))"

lemma length_NewLiveOut:
  "\<forall>B. sizes_ok (BBStates S B) \<Longrightarrow> length (NewLiveOut F S BB) < 2 ^ 32"
  unfolding NewLiveOut_def
  by (rule length_fold_bv_or_less) (auto simp: sizes_ok_def)

lemma length_NewUnrootedIn:
  "\<forall>B. sizes_ok (BBStates S B) \<Longrightarrow> length (NewUnrootedIn F S BB) < 2 ^ 32"
  unfolding NewUnrootedIn_def
  by (rule length_fold_bv_or_less) (auto simp: sizes_ok_def)

lemma length_NewLiveIn:
  "sizes_ok BBS \<Longrightarrow> length (NewLiveIn BBS) < 2 ^ 32"
  by (simp add: NewLiveIn_def sizes_ok_def)

lemma MaybeResize_LiveOut:
  assumes ok: "sizes_ok BBS" and len: "length New < 2 ^ 32"
  defines "BBS' \<equiv> MaybeResize (BBS\<lparr>LiveOut := New\<rparr>) (as_unsigned (int (length New) - 1))"
  shows "LiveOut BBS' = New" "LiveIn BBS' = LiveIn BBS" "UnrootedIn BBS' = UnrootedIn BBS"
    "UnrootedOut BBS' = UnrootedOut BBS" "HasSafepoint BBS' = HasSafepoint BBS"
    "sizes_ok BBS'" "length New \<le> length (Defs BBS')"
    "New \<noteq> [] \<Longrightarrow> bits (Defs BBS') = bits (Defs BBS) \<and> bits (PhiOuts BBS') = bits (PhiOuts BBS)
        \<and> bits (UpExposedUses BBS') = bits (UpExposedUses BBS)
        \<and> bits (UpExposedUsesUnrooted BBS') = bits (UpExposedUsesUnrooted BBS)
        \<and> length (Defs BBS) \<le> length (Defs BBS')"
proof -
  show "LiveOut BBS' = New" "LiveIn BBS' = LiveIn BBS" "UnrootedIn BBS' = UnrootedIn BBS"
    "UnrootedOut BBS' = UnrootedOut BBS" "HasSafepoint BBS' = HasSafepoint BBS"
    by (simp_all add: BBS'_def MaybeResize_def)
  have wrap: "BBS' = BBS\<lparr> LiveOut := New, Defs := [], UpExposedUses := [], UpExposedUsesUnrooted := [],
          DownExposedUnrooted := [], PhiOuts := [] \<rparr>" if "New = []"
    using that ok by (simp add: BBS'_def as_unsigned_minus1 MaybeResize_wrap sizes_ok_def)
  have grow: "BBS' =
     (if length (Defs BBS) \<le> k
      then BBS\<lparr> LiveOut := New, Defs := bv_resize (Suc k) (Defs BBS),
                UpExposedUses := bv_resize (Suc k) (UpExposedUses BBS),
                UpExposedUsesUnrooted := bv_resize (Suc k) (UpExposedUsesUnrooted BBS),
                DownExposedUnrooted := bv_resize (Suc k) (DownExposedUnrooted BBS),
                PhiOuts := bv_resize (Suc k) (PhiOuts BBS) \<rparr>
      else BBS\<lparr>LiveOut := New\<rparr>)" if "length New = Suc k" for k
  proof -
    have "as_unsigned (int (length New) - 1) = k"
      using that len as_unsigned_pred [of "length New"] by simp
    moreover have "Suc k < 2 ^ 32" using that len by simp
    ultimately show ?thesis by (simp add: BBS'_def MaybeResize_Suc)
  qed
  show "sizes_ok BBS'"
  proof (cases "length New")
    case 0
    then show ?thesis using ok wrap by (simp add: sizes_ok_def)
  next
    case (Suc k)
    then show ?thesis using ok len grow [OF Suc] by (simp add: sizes_ok_def)
  qed
  show "length New \<le> length (Defs BBS')"
  proof (cases "length New")
    case 0
    then show ?thesis by simp
  next
    case (Suc k)
    then show ?thesis using grow [OF Suc] by auto
  qed
  show "bits (Defs BBS') = bits (Defs BBS) \<and> bits (PhiOuts BBS') = bits (PhiOuts BBS)
        \<and> bits (UpExposedUses BBS') = bits (UpExposedUses BBS)
        \<and> bits (UpExposedUsesUnrooted BBS') = bits (UpExposedUsesUnrooted BBS)
        \<and> length (Defs BBS) \<le> length (Defs BBS')" if "New \<noteq> []"
  proof -
    from that obtain k where k: "length New = Suc k" by (cases "length New") auto
    show ?thesis
    proof (cases "length (Defs BBS) \<le> k")
      case True
      then show ?thesis using grow [OF k] ok
        by (simp add: bits_bv_resize_grow sizes_ok_def)
    next
      case False
      then show ?thesis using grow [OF k] by simp
    qed
  qed
qed

lemma update_LiveOut_sizes:
  assumes "flow_sizes S" "update_LiveOut F BB (S, c) = (S', c')"
  shows "flow_sizes S'"
proof (cases "bv_eq (NewLiveOut F S BB) (LiveOut (BBStates S BB))")
  case True
  with assms show ?thesis by (simp add: update_LiveOut_def)
next
  case False
  let ?New = "NewLiveOut F S BB"
  let ?BBS' = "MaybeResize ((BBStates S BB)\<lparr>LiveOut := ?New\<rparr>) (as_unsigned (int (length ?New) - 1))"
  from False assms(2) have S': "S' = S\<lparr>BBStates := (BBStates S)(BB := ?BBS')\<rparr>"
    by (simp add: update_LiveOut_def)
  have ok: "sizes_ok (BBStates S BB)" and len: "length ?New < 2 ^ 32"
    using assms(1) length_NewLiveOut [of S F BB] by (simp_all add: flow_sizes_def)
  from MaybeResize_LiveOut(1,6,7) [OF ok len]
  have "sizes_ok ?BBS'" "length (LiveOut ?BBS') \<le> length (Defs ?BBS')" by simp_all
  with assms(1) show ?thesis by (simp add: flow_sizes_def S')
qed

lemma update_LiveIn_sizes:
  assumes "flow_sizes S" "update_LiveIn BB (S, c) = (S', c')"
  shows "flow_sizes S'"
proof (cases "bv_eq (NewLiveIn (BBStates S BB)) (LiveIn (BBStates S BB))")
  case True
  with assms show ?thesis by (simp add: update_LiveIn_def)
next
  case False
  with assms(2) have S': "S' = S\<lparr>BBStates := (BBStates S)(BB :=
              (BBStates S BB)\<lparr>LiveIn := NewLiveIn (BBStates S BB)\<rparr>)\<rparr>"
    by (simp add: update_LiveIn_def)
  have "sizes_ok (BBStates S BB)" using assms(1) by (simp add: flow_sizes_def)
  then have "sizes_ok ((BBStates S BB)\<lparr>LiveIn := NewLiveIn (BBStates S BB)\<rparr>)"
    using length_NewLiveIn [of "BBStates S BB"] by (simp add: sizes_ok_def)
  with assms(1) show ?thesis by (simp add: flow_sizes_def S')
qed

lemma update_UnrootedIn_sizes:
  assumes "flow_sizes S" "update_UnrootedIn F BB (S, c) = (S', c')"
  shows "flow_sizes S'"
proof (cases "bv_eq (NewUnrootedIn F S BB) (UnrootedIn (BBStates S BB))")
  case True
  with assms show ?thesis by (simp add: update_UnrootedIn_def)
next
  case False
  let ?New = "NewUnrootedIn F S BB"
  let ?BBS' = "(BBStates S BB)\<lparr> UnrootedIn := ?New,
                 UnrootedOut :=
                   (if \<not> HasSafepoint (BBStates S BB)
                    then bv_or (UnrootedOut (BBStates S BB)) ?New
                    else UnrootedOut (BBStates S BB)) \<rparr>"
  from False assms(2) have S': "S' = S\<lparr>BBStates := (BBStates S)(BB := ?BBS')\<rparr>"
    by (simp add: update_UnrootedIn_def)
  have ok: "sizes_ok (BBStates S BB)" and len: "length ?New < 2 ^ 32"
    using assms(1) length_NewUnrootedIn [of S F BB] by (simp_all add: flow_sizes_def)
  then have "sizes_ok ?BBS'" by (simp add: sizes_ok_def)
  with assms(1) show ?thesis
    by (cases "HasSafepoint (BBStates S BB)") (simp_all add: flow_sizes_def S')
qed

lemma ComputeLiveness_block_sizes:
  assumes "flow_sizes S" "ComputeLiveness_block F BB (S, c) = (S', c')"
  shows "flow_sizes S'"
proof -
  obtain S1 c1 where 1: "update_LiveOut F BB (S, c) = (S1, c1)" by (cases "update_LiveOut F BB (S, c)")
  obtain S2 c2 where 2: "update_LiveIn BB (S1, c1) = (S2, c2)" by (cases "update_LiveIn BB (S1, c1)")
  from assms(2) 1 2 have 3: "update_UnrootedIn F BB (S2, c2) = (S', c')"
    by (simp add: ComputeLiveness_block_def)
  from update_UnrootedIn_sizes [OF update_LiveIn_sizes [OF update_LiveOut_sizes [OF assms(1) 1] 2] 3]
  show ?thesis .
qed

lemma fold_block_sizes:
  "flow_sizes S \<Longrightarrow> fold (ComputeLiveness_block F) Bs (S, c) = (S', c') \<Longrightarrow> flow_sizes S'"
proof (induction Bs arbitrary: S c)
  case Nil
  then show ?case by simp
next
  case (Cons B Bs)
  obtain S1 c1 where 1: "ComputeLiveness_block F B (S, c) = (S1, c1)"
    by (cases "ComputeLiveness_block F B (S, c)")
  with Cons.prems(2) have "fold (ComputeLiveness_block F) Bs (S1, c1) = (S', c')" by simp
  from Cons.IH [OF ComputeLiveness_block_sizes [OF Cons.prems(1) 1] this] show ?case .
qed

text \<open>A block step that leaves the flag down changed nothing.\<close>

lemma update_LiveOut_flag: "update_LiveOut F BB (S, c) = (S', False) \<Longrightarrow>
   S' = S \<and> c = False \<and> bv_eq (NewLiveOut F S BB) (LiveOut (BBStates S BB))"
  by (auto simp: update_LiveOut_def split: if_splits)

lemma update_LiveIn_flag: "update_LiveIn BB (S, c) = (S', False) \<Longrightarrow>
   S' = S \<and> c = False \<and> bv_eq (NewLiveIn (BBStates S BB)) (LiveIn (BBStates S BB))"
  by (auto simp: update_LiveIn_def split: if_splits)

lemma update_UnrootedIn_flag: "update_UnrootedIn F BB (S, c) = (S', False) \<Longrightarrow>
   S' = S \<and> c = False \<and> bv_eq (NewUnrootedIn F S BB) (UnrootedIn (BBStates S BB))"
  by (auto simp: update_UnrootedIn_def split: if_splits)

lemma ComputeLiveness_block_flag:
  assumes "ComputeLiveness_block F BB (S, c) = (S', False)"
  shows "S' = S \<and> c = False \<and> bv_eq (NewLiveOut F S BB) (LiveOut (BBStates S BB))
     \<and> bv_eq (NewLiveIn (BBStates S BB)) (LiveIn (BBStates S BB))
     \<and> bv_eq (NewUnrootedIn F S BB) (UnrootedIn (BBStates S BB))"
proof -
  obtain S1 c1 where 1: "update_LiveOut F BB (S, c) = (S1, c1)" by (cases "update_LiveOut F BB (S, c)")
  obtain S2 c2 where 2: "update_LiveIn BB (S1, c1) = (S2, c2)" by (cases "update_LiveIn BB (S1, c1)")
  from assms 1 2 have 3: "update_UnrootedIn F BB (S2, c2) = (S', False)"
    by (simp add: ComputeLiveness_block_def)
  from update_UnrootedIn_flag [OF 3] have a: "S' = S2" "c2 = False"
    "bv_eq (NewUnrootedIn F S2 BB) (UnrootedIn (BBStates S2 BB))" by simp_all
  from update_LiveIn_flag [OF 2 [unfolded a(2)]] have b: "S2 = S1" "c1 = False"
    "bv_eq (NewLiveIn (BBStates S1 BB)) (LiveIn (BBStates S1 BB))" by simp_all
  from update_LiveOut_flag [OF 1 [unfolded b(2)]] have c: "S1 = S" "c = False"
    "bv_eq (NewLiveOut F S BB) (LiveOut (BBStates S BB))" by simp_all
  from a b c show ?thesis by simp
qed

lemma fold_block_flag:
  "fold (ComputeLiveness_block F) Bs (S, c) = (S', False) \<Longrightarrow>
   S' = S \<and> c = False \<and> (\<forall>BB \<in> set Bs.
       bv_eq (NewLiveOut F S BB) (LiveOut (BBStates S BB))
     \<and> bv_eq (NewLiveIn (BBStates S BB)) (LiveIn (BBStates S BB))
     \<and> bv_eq (NewUnrootedIn F S BB) (UnrootedIn (BBStates S BB)))"
proof (induction Bs arbitrary: S c)
  case Nil
  then show ?case by simp
next
  case (Cons B Bs)
  obtain S1 c1 where 1: "ComputeLiveness_block F B (S, c) = (S1, c1)"
    by (cases "ComputeLiveness_block F B (S, c)")
  with Cons.prems have 2: "fold (ComputeLiveness_block F) Bs (S1, c1) = (S', False)" by simp
  from Cons.IH [OF 2] have r: "S' = S1" "c1 = False" and rest: "\<forall>BB \<in> set Bs.
       bv_eq (NewLiveOut F S1 BB) (LiveOut (BBStates S1 BB))
     \<and> bv_eq (NewLiveIn (BBStates S1 BB)) (LiveIn (BBStates S1 BB))
     \<and> bv_eq (NewUnrootedIn F S1 BB) (UnrootedIn (BBStates S1 BB))" by simp_all
  from ComputeLiveness_block_flag [OF 1 [unfolded r(2)]] r rest show ?case by simp
qed


lemma ComputeLiveness_loop_fixpoint_aux:
  assumes "ComputeLiveness_loop F S = Some S'"
  shows "flow_sizes S \<longrightarrow> flow_sizes S' \<and> ComputeLiveness_pass F S' = (S', False)"
proof (rule ComputeLiveness_loop.raw_induct
    [where P = "\<lambda>F S S'. flow_sizes S \<longrightarrow> flow_sizes S' \<and> ComputeLiveness_pass F S' = (S', False)",
     OF _ assms], goal_cases)
  case (1 loop F S S')
  show ?case
  proof
    assume ok: "flow_sizes S"
    obtain S1 ch where p: "ComputeLiveness_pass F S = (S1, ch)" by (cases "ComputeLiveness_pass F S")
    have ok1: "flow_sizes S1" using fold_block_sizes [OF ok] p by (simp add: ComputeLiveness_pass_def)
    show "flow_sizes S' \<and> ComputeLiveness_pass F S' = (S', False)"
    proof (cases ch)
      case True
      with 1(2) p have "loop F S1 = Some S'" by simp
      from 1(1) [OF this] ok1 show ?thesis by blast
    next
      case False
      with 1(2) p have eq: "S' = S1" by simp
      from p False fold_block_flag [of F "RPOT F" S False S1] have "S1 = S"
        by (simp add: ComputeLiveness_pass_def)
      with eq p False ok1 show ?thesis by simp
    qed
  qed
qed

text \<open>A block as LocalScan leaves it: \<^verbatim>\<open>LiveIn\<close> and \<^verbatim>\<open>UnrootedOut\<close>
  pre-seeded, \<^verbatim>\<open>LiveOut\<close> and \<^verbatim>\<open>UnrootedIn\<close> still empty.\<close>

definition PreSeeded :: "BBState \<Rightarrow> bool" where
  "PreSeeded BBS \<longleftrightarrow>
     bits (LiveIn BBS) = bits (UpExposedUses BBS) \<union> bits (UpExposedUsesUnrooted BBS) \<and>
     bits (UnrootedOut BBS) = bits (DownExposedUnrooted BBS) \<and>
     LiveOut BBS = [] \<and> UnrootedIn BBS = []"

text \<open>The loop writes the state of no block but those of the traversal.\<close>

lemma ComputeLiveness_block_other:
  assumes "ComputeLiveness_block F BB (S, c) = (S', c')" and "B \<noteq> BB"
  shows "BBStates S' B = BBStates S B"
proof -
  obtain S1 c1 where 1: "update_LiveOut F BB (S, c) = (S1, c1)" by (cases "update_LiveOut F BB (S, c)")
  obtain S2 c2 where 2: "update_LiveIn BB (S1, c1) = (S2, c2)" by (cases "update_LiveIn BB (S1, c1)")
  from assms(1) 1 2 have 3: "update_UnrootedIn F BB (S2, c2) = (S', c')"
    by (simp add: ComputeLiveness_block_def)
  from 1 assms(2) have "BBStates S1 B = BBStates S B"
    by (auto simp: update_LiveOut_def split: if_splits)
  moreover from 2 assms(2) have "BBStates S2 B = BBStates S1 B"
    by (auto simp: update_LiveIn_def split: if_splits)
  moreover from 3 assms(2) have "BBStates S' B = BBStates S2 B"
    by (auto simp: update_UnrootedIn_def split: if_splits)
  ultimately show ?thesis by simp
qed

lemma fold_block_other:
  "fold (ComputeLiveness_block F) Bs (S, c) = (S', c') \<Longrightarrow> B \<notin> set Bs \<Longrightarrow>
   BBStates S' B = BBStates S B"
proof (induction Bs arbitrary: S c)
  case Nil
  then show ?case by simp
next
  case (Cons BB Bs)
  obtain S1 c1 where 1: "ComputeLiveness_block F BB (S, c) = (S1, c1)"
    by (cases "ComputeLiveness_block F BB (S, c)")
  with Cons.prems(1) have 2: "fold (ComputeLiveness_block F) Bs (S1, c1) = (S', c')" by simp
  from Cons.prems(2) have ne: "B \<noteq> BB" and notin: "B \<notin> set Bs" by simp_all
  from Cons.IH [OF 2 notin] ComputeLiveness_block_other [OF 1 ne] show ?case by simp
qed

lemma ComputeLiveness_loop_other:
  assumes "ComputeLiveness_loop F S = Some S'"
  shows "B \<notin> set (RPOT F) \<longrightarrow> BBStates S' B = BBStates S B"
proof (rule ComputeLiveness_loop.raw_induct
    [where P = "\<lambda>F S S'. B \<notin> set (RPOT F) \<longrightarrow> BBStates S' B = BBStates S B", OF _ assms],
    goal_cases)
  case (1 loop F S S')
  obtain S1 ch where p: "ComputeLiveness_pass F S = (S1, ch)" by (cases "ComputeLiveness_pass F S")
  then have f: "fold (ComputeLiveness_block F) (RPOT F) (S, False) = (S1, ch)"
    by (simp add: ComputeLiveness_pass_def)
  show ?case
  proof
    assume notin: "B \<notin> set (RPOT F)"
    from fold_block_other [OF f notin] have eq1: "BBStates S1 B = BBStates S B" .
    show "BBStates S' B = BBStates S B"
    proof (cases ch)
      case True
      with 1(2) p have "loop F S1 = Some S'" by simp
      from 1(1) [OF this] notin eq1 show ?thesis by simp
    next
      case False
      with 1(2) p have "S' = S1" by simp
      with eq1 show ?thesis by simp
    qed
  qed
qed

text \<open>
  C3 (amended). When the dataflow loop returns, every basic block \<open>B\<close> satisfies
  \<open>LiveIn[B] = UpExposedUses[B] \<union> UpExposedUsesUnrooted[B] \<union> (LiveOut[B] - Defs[B])\<close>:
  a block of the reverse postorder traversal because the last pass changed nothing, any
  other block because the loop never writes it and LocalScan pre-seeded it. Every block
  \<open>B\<close> that the traversal visits (the blocks reachable from the entry block) satisfies
  \<open>LiveOut[B] = PhiOuts[B] \<union>\<close> the union of \<open>LiveIn[S]\<close> over the successors \<open>S\<close> of \<open>B\<close>.
\<close>

theorem ComputeLiveness_fixpoint_equations:
  assumes "ComputeLiveness_loop F S = Some S'"
    and "\<forall>B. sizes_ok (BBStates S B) \<and> length (LiveOut (BBStates S B)) \<le> length (Defs (BBStates S B))"
    and "B \<notin> set (RPOT F) \<longrightarrow> PreSeeded (BBStates S B)"
  shows "bits (LiveIn (BBStates S' B)) =
           bits (UpExposedUses (BBStates S' B)) \<union> bits (UpExposedUsesUnrooted (BBStates S' B))
           \<union> (bits (LiveOut (BBStates S' B)) - bits (Defs (BBStates S' B)))
       \<and> (B \<in> set (RPOT F) \<longrightarrow>
           bits (LiveOut (BBStates S' B)) =
             bits (PhiOuts (BBStates S' B))
             \<union> (\<Union>Succ \<in> set (successors F B). bits (LiveIn (BBStates S' Succ))))"
proof (cases "B \<in> set (RPOT F)")
  case True
  from assms(2) have "flow_sizes S" by (simp add: flow_sizes_def)
  with ComputeLiveness_loop_fixpoint_aux [OF assms(1)]
  have ok: "flow_sizes S'" and fixp: "ComputeLiveness_pass F S' = (S', False)" by simp_all
  from fixp fold_block_flag [of F "RPOT F" S' False S'] True
  have out: "bv_eq (NewLiveOut F S' B) (LiveOut (BBStates S' B))"
    and inn: "bv_eq (NewLiveIn (BBStates S' B)) (LiveIn (BBStates S' B))"
    by (simp_all add: ComputeLiveness_pass_def)
  from ok have "length (LiveOut (BBStates S' B)) \<le> length (Defs (BBStates S' B))"
    by (simp add: flow_sizes_def)
  from bits_NewLiveIn_exact [OF this] inn
  have "bits (LiveIn (BBStates S' B)) =
           bits (UpExposedUses (BBStates S' B)) \<union> bits (UpExposedUsesUnrooted (BBStates S' B))
           \<union> (bits (LiveOut (BBStates S' B)) - bits (Defs (BBStates S' B)))"
    by (simp add: bv_eq_bits)
  moreover from out have "bits (LiveOut (BBStates S' B)) =
           bits (PhiOuts (BBStates S' B))
           \<union> (\<Union>Succ \<in> set (successors F B). bits (LiveIn (BBStates S' Succ)))"
    by (simp add: bv_eq_bits bits_NewLiveOut)
  ultimately show ?thesis by blast
next
  case False
  with ComputeLiveness_loop_other [OF assms(1), of B]
  have same: "BBStates S' B = BBStates S B" by simp
  from False assms(3) have "PreSeeded (BBStates S B)" by simp
  then have "bits (LiveIn (BBStates S B)) =
        bits (UpExposedUses (BBStates S B)) \<union> bits (UpExposedUsesUnrooted (BBStates S B))"
    and "bits (LiveOut (BBStates S B)) = {}"
    by (simp_all add: PreSeeded_def bits_def)
  with same False show ?thesis by simp
qed

subsection \<open>Termination\<close>

text \<open>The order in which the dataflow moves: the four dataflow sets grow, the sets
  of the local scan stay.\<close>

definition grows :: "BBState \<Rightarrow> BBState \<Rightarrow> bool" where
  "grows X Y \<longleftrightarrow>
     bits (LiveIn X) \<subseteq> bits (LiveIn Y) \<and> bits (LiveOut X) \<subseteq> bits (LiveOut Y) \<and>
     bits (UnrootedIn X) \<subseteq> bits (UnrootedIn Y) \<and> bits (UnrootedOut X) \<subseteq> bits (UnrootedOut Y) \<and>
     bits (PhiOuts X) = bits (PhiOuts Y) \<and> bits (UpExposedUses X) = bits (UpExposedUses Y) \<and>
     bits (UpExposedUsesUnrooted X) = bits (UpExposedUsesUnrooted Y) \<and>
     bits (Defs X) = bits (Defs Y) \<and> length (Defs X) \<le> length (Defs Y)"

definition state_le :: "State \<Rightarrow> State \<Rightarrow> bool" where
  "state_le S S' \<longleftrightarrow> (\<forall>B. grows (BBStates S B) (BBStates S' B))"

text \<open>The dataflow sets of \<open>S'\<close> at \<open>B\<close> are below what the loop body computes
  from \<open>S\<close>.\<close>

definition below_next :: "Function \<Rightarrow> State \<Rightarrow> State \<Rightarrow> BasicBlock \<Rightarrow> bool" where
  "below_next F S' S B \<longleftrightarrow>
     bits (LiveOut (BBStates S' B)) \<subseteq> bits (NewLiveOut F S B) \<and>
     bits (LiveIn (BBStates S' B)) \<subseteq> bits (NewLiveIn (BBStates S B)) \<and>
     bits (UnrootedIn (BBStates S' B)) \<subseteq> bits (NewUnrootedIn F S B)"

definition inflationary :: "Function \<Rightarrow> State \<Rightarrow> bool" where
  "inflationary F S \<longleftrightarrow> (\<forall>B. B \<in> set (RPOT F) \<longrightarrow> below_next F S S B)"

definition flow_count :: "State \<Rightarrow> BasicBlock \<Rightarrow> nat" where
  "flow_count S B =
     card (bits (LiveIn (BBStates S B))) + card (bits (LiveOut (BBStates S B))) +
     card (bits (UnrootedIn (BBStates S B))) + card (bits (UnrootedOut (BBStates S B)))"

definition flow_measure :: "Function \<Rightarrow> State \<Rightarrow> nat" where
  "flow_measure F S = (\<Sum>B \<in> set (RPOT F). 4 * 2 ^ 32 - flow_count S B)"

lemma grows_refl [simp]: "grows X X"
  by (simp add: grows_def)

lemma grows_trans: "grows X Y \<Longrightarrow> grows Y Z \<Longrightarrow> grows X Z"
  by (auto simp: grows_def)

lemma state_le_refl [simp]: "state_le S S"
  by (simp add: state_le_def)

lemma state_le_trans: "state_le S S1 \<Longrightarrow> state_le S1 S2 \<Longrightarrow> state_le S S2"
  by (auto simp: state_le_def intro: grows_trans)

lemma state_le_update:
  "grows (BBStates S BB) X \<Longrightarrow> state_le S (S\<lparr>BBStates := (BBStates S)(BB := X)\<rparr>)"
  by (simp add: state_le_def)

lemma state_le_D:
  assumes "state_le S S'"
  shows "bits (LiveIn (BBStates S B)) \<subseteq> bits (LiveIn (BBStates S' B))"
    "bits (LiveOut (BBStates S B)) \<subseteq> bits (LiveOut (BBStates S' B))"
    "bits (UnrootedIn (BBStates S B)) \<subseteq> bits (UnrootedIn (BBStates S' B))"
    "bits (UnrootedOut (BBStates S B)) \<subseteq> bits (UnrootedOut (BBStates S' B))"
    "bits (PhiOuts (BBStates S B)) = bits (PhiOuts (BBStates S' B))"
  using assms by (simp_all add: state_le_def grows_def)

lemma mono_NewLiveOut: "state_le S S' \<Longrightarrow> bits (NewLiveOut F S B) \<subseteq> bits (NewLiveOut F S' B)"
proof
  fix i assume le: "state_le S S'" and i: "i \<in> bits (NewLiveOut F S B)"
  from i have "i \<in> bits (PhiOuts (BBStates S B)) \<or>
      (\<exists>Succ \<in> set (successors F B). i \<in> bits (LiveIn (BBStates S Succ)))"
    by (simp add: bits_NewLiveOut)
  then have "i \<in> bits (PhiOuts (BBStates S' B)) \<or>
      (\<exists>Succ \<in> set (successors F B). i \<in> bits (LiveIn (BBStates S' Succ)))"
    using state_le_D(1,5) [OF le] by blast
  then show "i \<in> bits (NewLiveOut F S' B)" by (simp add: bits_NewLiveOut)
qed

lemma mono_NewUnrootedIn: "state_le S S' \<Longrightarrow> bits (NewUnrootedIn F S B) \<subseteq> bits (NewUnrootedIn F S' B)"
proof
  fix i assume le: "state_le S S'" and i: "i \<in> bits (NewUnrootedIn F S B)"
  from i have "\<exists>Pred \<in> set (predecessors F B). i \<in> bits (UnrootedOut (BBStates S Pred))"
    by (simp add: bits_NewUnrootedIn)
  then have "\<exists>Pred \<in> set (predecessors F B). i \<in> bits (UnrootedOut (BBStates S' Pred))"
    using state_le_D(4) [OF le] by blast
  then show "i \<in> bits (NewUnrootedIn F S' B)" by (simp add: bits_NewUnrootedIn)
qed

lemma mono_NewLiveIn: "grows X Y \<Longrightarrow> bits (NewLiveIn X) \<subseteq> bits (NewLiveIn Y)"
proof -
  assume g: "grows X Y"
  have "{i. i < length (Defs X) \<and> \<not> Defs X ! i} = {..<length (Defs X)} - bits (Defs X)"
       "{i. i < length (Defs Y) \<and> \<not> Defs Y ! i} = {..<length (Defs Y)} - bits (Defs Y)"
    by (auto simp: bits_def)
  moreover have "{..<length (Defs X)} - bits (Defs X) \<subseteq> {..<length (Defs Y)} - bits (Defs Y)"
    using g by (auto simp: grows_def)
  moreover have "bits (LiveOut X) \<subseteq> bits (LiveOut Y)" "bits (UpExposedUses X) = bits (UpExposedUses Y)"
    "bits (UpExposedUsesUnrooted X) = bits (UpExposedUsesUnrooted Y)"
    using g by (simp_all add: grows_def)
  ultimately show ?thesis unfolding bits_NewLiveIn by blast
qed

lemma inflationary_step:
  assumes "inflationary F S" "state_le S S'"
    and "\<And>B. B \<in> set (RPOT F) \<Longrightarrow> below_next F S' S B"
  shows "inflationary F S'"
  unfolding inflationary_def below_next_def
proof (intro allI impI conjI)
  fix B assume B: "B \<in> set (RPOT F)"
  from assms(3) [OF B] have b: "bits (LiveOut (BBStates S' B)) \<subseteq> bits (NewLiveOut F S B)"
    "bits (LiveIn (BBStates S' B)) \<subseteq> bits (NewLiveIn (BBStates S B))"
    "bits (UnrootedIn (BBStates S' B)) \<subseteq> bits (NewUnrootedIn F S B)"
    by (simp_all add: below_next_def)
  from assms(2) have g: "grows (BBStates S B) (BBStates S' B)" by (simp add: state_le_def)
  show "bits (LiveOut (BBStates S' B)) \<subseteq> bits (NewLiveOut F S' B)"
    using b(1) mono_NewLiveOut [OF assms(2)] by blast
  show "bits (LiveIn (BBStates S' B)) \<subseteq> bits (NewLiveIn (BBStates S' B))"
    using b(2) mono_NewLiveIn [OF g] by blast
  show "bits (UnrootedIn (BBStates S' B)) \<subseteq> bits (NewUnrootedIn F S' B)"
    using b(3) mono_NewUnrootedIn [OF assms(2)] by blast
qed

lemma card_bits_le: "card (bits A) \<le> length A"
proof -
  have "bits A \<subseteq> {..<length A}" by (auto simp: bits_def)
  then have "card (bits A) \<le> card {..<length A}" by (rule card_mono [rotated]) simp
  then show ?thesis by simp
qed

lemma flow_count_bound: "sizes_ok (BBStates S B) \<Longrightarrow> flow_count S B \<le> 4 * 2 ^ 32"
proof -
  assume ok: "sizes_ok (BBStates S B)"
  have "card (bits (LiveIn (BBStates S B))) \<le> 2 ^ 32" "card (bits (LiveOut (BBStates S B))) \<le> 2 ^ 32"
    "card (bits (UnrootedIn (BBStates S B))) \<le> 2 ^ 32" "card (bits (UnrootedOut (BBStates S B))) \<le> 2 ^ 32"
    using ok card_bits_le [of "LiveIn (BBStates S B)"] card_bits_le [of "LiveOut (BBStates S B)"]
      card_bits_le [of "UnrootedIn (BBStates S B)"] card_bits_le [of "UnrootedOut (BBStates S B)"]
    by (simp_all add: sizes_ok_def)
  then show ?thesis by (simp add: flow_count_def)
qed

lemma state_le_count: "state_le S S' \<Longrightarrow> flow_count S B \<le> flow_count S' B"
proof -
  assume "state_le S S'"
  then have g: "grows (BBStates S B) (BBStates S' B)" by (simp add: state_le_def)
  have "card (bits (LiveIn (BBStates S B))) \<le> card (bits (LiveIn (BBStates S' B)))"
    "card (bits (LiveOut (BBStates S B))) \<le> card (bits (LiveOut (BBStates S' B)))"
    "card (bits (UnrootedIn (BBStates S B))) \<le> card (bits (UnrootedIn (BBStates S' B)))"
    "card (bits (UnrootedOut (BBStates S B))) \<le> card (bits (UnrootedOut (BBStates S' B)))"
    using g by (simp_all add: grows_def card_mono)
  then show ?thesis by (simp add: flow_count_def)
qed

lemma flow_measure_less:
  assumes le: "state_le S S'" and ok: "\<forall>B. sizes_ok (BBStates S' B)"
    and strict: "B \<in> set (RPOT F)" "flow_count S B < flow_count S' B"
  shows "flow_measure F S' < flow_measure F S"
  unfolding flow_measure_def
proof (rule sum_strict_mono_ex1)
  show "finite (set (RPOT F))" by simp
  show "\<forall>x \<in> set (RPOT F). 4 * 2 ^ 32 - flow_count S' x \<le> 4 * 2 ^ 32 - flow_count S x"
    using state_le_count [OF le] by (simp add: diff_le_mono2)
  show "\<exists>a \<in> set (RPOT F). 4 * 2 ^ 32 - flow_count S' a < 4 * 2 ^ 32 - flow_count S a"
  proof
    show "B \<in> set (RPOT F)" by fact
    from flow_count_bound [of S' B] ok have "flow_count S' B \<le> 4 * 2 ^ 32" by simp
    with strict(2) show "4 * 2 ^ 32 - flow_count S' B < 4 * 2 ^ 32 - flow_count S B" by simp
  qed
qed

definition progress :: "Function \<Rightarrow> State \<Rightarrow> bool \<Rightarrow> State \<Rightarrow> bool \<Rightarrow> bool" where
  "progress F S c S' c' \<longleftrightarrow>
     state_le S S' \<and>
     (c' = c \<or> (c' \<and> (\<exists>B. B \<in> set (RPOT F) \<and> flow_count S B < flow_count S' B)))"

lemma progress_refl [simp]: "progress F S c S c"
  by (simp add: progress_def)

lemma progress_trans:
  assumes "progress F S c S1 c1" "progress F S1 c1 S2 c2"
  shows "progress F S c S2 c2"
proof -
  from assms have le1: "state_le S S1" and le2: "state_le S1 S2" by (simp_all add: progress_def)
  have le: "state_le S S2" using le1 le2 by (rule state_le_trans)
  consider (same) "c1 = c" "c2 = c1"
    | (first) B where "c1" "B \<in> set (RPOT F)" "flow_count S B < flow_count S1 B"
    | (second) B where "c2" "B \<in> set (RPOT F)" "flow_count S1 B < flow_count S2 B"
    using assms by (auto simp: progress_def)
  then show ?thesis
  proof cases
    case same
    with le show ?thesis by (simp add: progress_def)
  next
    case first
    from assms(2) first(1) have "c2" by (auto simp: progress_def)
    moreover have "flow_count S B < flow_count S2 B"
      using first(3) state_le_count [OF le2, of B] by simp
    ultimately show ?thesis using le first(2) by (auto simp: progress_def)
  next
    case second
    have "flow_count S B < flow_count S2 B"
      using second(3) state_le_count [OF le1, of B] by simp
    with second le show ?thesis by (auto simp: progress_def)
  qed
qed

lemma below_next_other:
  assumes "inflationary F S" "B \<in> set (RPOT F)" "BBStates S' B = BBStates S B"
  shows "below_next F S' S B"
  using assms by (simp add: inflationary_def below_next_def)

lemma update_LiveOut_progress:
  assumes ok: "flow_sizes S" and inf: "inflationary F S" and BB: "BB \<in> set (RPOT F)"
    and upd: "update_LiveOut F BB (S, c) = (S', c')"
  shows "inflationary F S' \<and> progress F S c S' c'"
proof (cases "bv_eq (NewLiveOut F S BB) (LiveOut (BBStates S BB))")
  case True
  with upd inf show ?thesis by (simp add: update_LiveOut_def)
next
  case False
  let ?New = "NewLiveOut F S BB"
  let ?X = "BBStates S BB"
  let ?BBS' = "MaybeResize (?X\<lparr>LiveOut := ?New\<rparr>) (as_unsigned (int (length ?New) - 1))"
  from False upd have S': "S' = S\<lparr>BBStates := (BBStates S)(BB := ?BBS')\<rparr>" and c': "c'"
    by (simp_all add: update_LiveOut_def)
  have okX: "sizes_ok ?X" and len: "length ?New < 2 ^ 32"
    using ok length_NewLiveOut [of S F BB] by (simp_all add: flow_sizes_def)
  from inf BB have sub: "bits (LiveOut ?X) \<subseteq> bits ?New"
    and subIn: "bits (LiveIn ?X) \<subseteq> bits (NewLiveIn ?X)"
    and subU: "bits (UnrootedIn ?X) \<subseteq> bits (NewUnrootedIn F S BB)"
    by (simp_all add: inflationary_def below_next_def)
  from False have ne: "bits ?New \<noteq> bits (LiveOut ?X)" by (simp add: bv_eq_bits)
  with sub have "bits ?New \<noteq> {}" by auto
  then have nonempty: "?New \<noteq> []" by auto
  note R = MaybeResize_LiveOut [OF okX len]
  note R8 = R(8) [OF nonempty]
  have g: "grows ?X ?BBS'"
    using R(1-4) R8 sub by (simp add: grows_def)
  have le: "state_le S S'" unfolding S' using g by (rule state_le_update)
  have bn: "below_next F S' S B" if B: "B \<in> set (RPOT F)" for B
  proof (cases "B = BB")
    case True
    then show ?thesis using R(1-3) subIn subU by (simp add: S' below_next_def)
  next
    case False
    then show ?thesis using below_next_other [OF inf B] by (simp add: S')
  qed
  have inf': "inflationary F S'" using inf le bn by (rule inflationary_step)
  have "card (bits (LiveOut ?X)) < card (bits ?New)"
    using sub ne by (simp add: psubset_card_mono psubset_eq)
  then have "flow_count S BB < flow_count S' BB"
    using R(1-4) by (simp add: flow_count_def S')
  with le c' BB inf' show ?thesis by (auto simp: progress_def)
qed

lemma update_LiveIn_progress:
  assumes ok: "flow_sizes S" and inf: "inflationary F S" and BB: "BB \<in> set (RPOT F)"
    and upd: "update_LiveIn BB (S, c) = (S', c')"
  shows "inflationary F S' \<and> progress F S c S' c'"
proof (cases "bv_eq (NewLiveIn (BBStates S BB)) (LiveIn (BBStates S BB))")
  case True
  with upd inf show ?thesis by (simp add: update_LiveIn_def)
next
  case False
  let ?X = "BBStates S BB"
  let ?New = "NewLiveIn ?X"
  let ?BBS' = "?X\<lparr>LiveIn := ?New\<rparr>"
  from False upd have S': "S' = S\<lparr>BBStates := (BBStates S)(BB := ?BBS')\<rparr>" and c': "c'"
    by (simp_all add: update_LiveIn_def)
  from inf BB have sub: "bits (LiveIn ?X) \<subseteq> bits ?New"
    and subOut: "bits (LiveOut ?X) \<subseteq> bits (NewLiveOut F S BB)"
    and subU: "bits (UnrootedIn ?X) \<subseteq> bits (NewUnrootedIn F S BB)"
    by (simp_all add: inflationary_def below_next_def)
  from False have ne: "bits ?New \<noteq> bits (LiveIn ?X)" by (simp add: bv_eq_bits)
  have g: "grows ?X ?BBS'" using sub by (simp add: grows_def)
  have le: "state_le S S'" unfolding S' using g by (rule state_le_update)
  have bn: "below_next F S' S B" if B: "B \<in> set (RPOT F)" for B
  proof (cases "B = BB")
    case True
    then show ?thesis using subOut subU by (simp add: S' below_next_def)
  next
    case False
    then show ?thesis using below_next_other [OF inf B] by (simp add: S')
  qed
  have inf': "inflationary F S'" using inf le bn by (rule inflationary_step)
  have "card (bits (LiveIn ?X)) < card (bits ?New)"
    using sub ne by (simp add: psubset_card_mono psubset_eq)
  then have "flow_count S BB < flow_count S' BB"
    by (simp add: flow_count_def S')
  with le c' BB inf' show ?thesis by (auto simp: progress_def)
qed

lemma update_UnrootedIn_progress:
  assumes ok: "flow_sizes S" and inf: "inflationary F S" and BB: "BB \<in> set (RPOT F)"
    and upd: "update_UnrootedIn F BB (S, c) = (S', c')"
  shows "inflationary F S' \<and> progress F S c S' c'"
proof (cases "bv_eq (NewUnrootedIn F S BB) (UnrootedIn (BBStates S BB))")
  case True
  with upd inf show ?thesis by (simp add: update_UnrootedIn_def)
next
  case False
  let ?X = "BBStates S BB"
  let ?New = "NewUnrootedIn F S BB"
  let ?Out = "if \<not> HasSafepoint ?X then bv_or (UnrootedOut ?X) ?New else UnrootedOut ?X"
  let ?BBS' = "?X\<lparr>UnrootedIn := ?New, UnrootedOut := ?Out\<rparr>"
  from False upd have S': "S' = S\<lparr>BBStates := (BBStates S)(BB := ?BBS')\<rparr>" and c': "c'"
    by (simp_all add: update_UnrootedIn_def)
  from inf BB have sub: "bits (UnrootedIn ?X) \<subseteq> bits ?New"
    and subOut: "bits (LiveOut ?X) \<subseteq> bits (NewLiveOut F S BB)"
    and subIn: "bits (LiveIn ?X) \<subseteq> bits (NewLiveIn ?X)"
    by (simp_all add: inflationary_def below_next_def)
  from False have ne: "bits ?New \<noteq> bits (UnrootedIn ?X)" by (simp add: bv_eq_bits)
  have out: "bits (UnrootedOut ?X) \<subseteq> bits ?Out" by simp
  have g: "grows ?X ?BBS'" using sub out by (simp add: grows_def)
  have le: "state_le S S'" unfolding S' using g by (rule state_le_update)
  have bn: "below_next F S' S B" if B: "B \<in> set (RPOT F)" for B
  proof (cases "B = BB")
    case True
    then show ?thesis using subOut subIn by (simp add: S' below_next_def)
  next
    case False
    then show ?thesis using below_next_other [OF inf B] by (simp add: S')
  qed
  have inf': "inflationary F S'" using inf le bn by (rule inflationary_step)
  have "card (bits (UnrootedIn ?X)) < card (bits ?New)"
    using sub ne by (simp add: psubset_card_mono psubset_eq)
  moreover have "card (bits (UnrootedOut ?X)) \<le> card (bits ?Out)"
    using out by (simp add: card_mono)
  ultimately have "flow_count S BB < flow_count S' BB"
    by (simp add: flow_count_def S')
  with le c' BB inf' show ?thesis by (auto simp: progress_def)
qed

lemma ComputeLiveness_block_progress:
  assumes ok: "flow_sizes S" and inf: "inflationary F S" and BB: "BB \<in> set (RPOT F)"
    and blk: "ComputeLiveness_block F BB (S, c) = (S', c')"
  shows "flow_sizes S' \<and> inflationary F S' \<and> progress F S c S' c'"
proof -
  obtain S1 c1 where 1: "update_LiveOut F BB (S, c) = (S1, c1)" by (cases "update_LiveOut F BB (S, c)")
  obtain S2 c2 where 2: "update_LiveIn BB (S1, c1) = (S2, c2)" by (cases "update_LiveIn BB (S1, c1)")
  from blk 1 2 have 3: "update_UnrootedIn F BB (S2, c2) = (S', c')"
    by (simp add: ComputeLiveness_block_def)
  note ok1 = update_LiveOut_sizes [OF ok 1]
  note ok2 = update_LiveIn_sizes [OF ok1 2]
  note ok3 = update_UnrootedIn_sizes [OF ok2 3]
  from update_LiveOut_progress [OF ok inf BB 1]
  have i1: "inflationary F S1" and p1: "progress F S c S1 c1" by simp_all
  from update_LiveIn_progress [OF ok1 i1 BB 2]
  have i2: "inflationary F S2" and p2: "progress F S1 c1 S2 c2" by simp_all
  from update_UnrootedIn_progress [OF ok2 i2 BB 3]
  have i3: "inflationary F S'" and p3: "progress F S2 c2 S' c'" by simp_all
  from progress_trans [OF progress_trans [OF p1 p2] p3] ok3 i3 show ?thesis by simp
qed

lemma fold_block_progress:
  assumes "flow_sizes S" "inflationary F S" "set Bs \<subseteq> set (RPOT F)"
    and "fold (ComputeLiveness_block F) Bs (S, c) = (S', c')"
  shows "flow_sizes S' \<and> inflationary F S' \<and> progress F S c S' c'"
  using assms
proof (induction Bs arbitrary: S c)
  case Nil
  then show ?case by simp
next
  case (Cons B Bs)
  obtain S1 c1 where 1: "ComputeLiveness_block F B (S, c) = (S1, c1)"
    by (cases "ComputeLiveness_block F B (S, c)")
  with Cons.prems(4) have 2: "fold (ComputeLiveness_block F) Bs (S1, c1) = (S', c')" by simp
  from Cons.prems(3) have B: "B \<in> set (RPOT F)" and Bs: "set Bs \<subseteq> set (RPOT F)" by simp_all
  from ComputeLiveness_block_progress [OF Cons.prems(1,2) B 1]
  have ok1: "flow_sizes S1" and i1: "inflationary F S1" and p1: "progress F S c S1 c1" by simp_all
  from Cons.IH [OF ok1 i1 Bs 2] progress_trans [OF p1] show ?case by blast
qed

lemma ComputeLiveness_loop_terminates:
  assumes "flow_sizes S" "inflationary F S"
  shows "\<exists>S'. ComputeLiveness_loop F S = Some S' \<and> state_le S S'
            \<and> ComputeLiveness_pass F S' = (S', False)"
  using assms
proof (induction "flow_measure F S" arbitrary: S rule: less_induct)
  case less
  obtain S1 ch where p: "ComputeLiveness_pass F S = (S1, ch)" by (cases "ComputeLiveness_pass F S")
  then have f: "fold (ComputeLiveness_block F) (RPOT F) (S, False) = (S1, ch)"
    by (simp add: ComputeLiveness_pass_def)
  from fold_block_progress [OF less.prems subset_refl f]
  have ok1: "flow_sizes S1" and i1: "inflationary F S1" and p1: "progress F S False S1 ch" by simp_all
  show ?case
  proof (cases ch)
    case True
    with p1 obtain B where B: "B \<in> set (RPOT F)" "flow_count S B < flow_count S1 B"
      and le: "state_le S S1" by (auto simp: progress_def)
    from ok1 have "\<forall>B. sizes_ok (BBStates S1 B)" by (simp add: flow_sizes_def)
    from flow_measure_less [OF le this B] have "flow_measure F S1 < flow_measure F S" .
    from less.hyps [OF this ok1 i1] obtain S' where
      S': "ComputeLiveness_loop F S1 = Some S'" "state_le S1 S'"
          "ComputeLiveness_pass F S' = (S', False)" by blast
    have "ComputeLiveness_loop F S = ComputeLiveness_loop F S1"
      using p True by (subst ComputeLiveness_loop.simps) simp
    with S' state_le_trans [OF le S'(2)] show ?thesis by auto
  next
    case False
    from f False have "fold (ComputeLiveness_block F) (RPOT F) (S, False) = (S1, False)" by simp
    from fold_block_flag [OF this] have eq: "S1 = S" by simp
    have "ComputeLiveness_loop F S = Some S1"
      using p False by (subst ComputeLiveness_loop.simps) simp
    with eq p False show ?thesis by auto
  qed
qed

lemma PreSeeded_inflationary:
  "\<forall>B. PreSeeded (BBStates S B) \<Longrightarrow> inflationary F S"
  by (auto simp: inflationary_def below_next_def PreSeeded_def bits_NewLiveIn)

lemma PreSeeded_flow_sizes:
  "\<forall>B. sizes_ok (BBStates S B) \<and> PreSeeded (BBStates S B) \<Longrightarrow> flow_sizes S"
  by (simp add: flow_sizes_def PreSeeded_def)

text \<open>
  C8. From the state LocalScan leaves, the dataflow loop returns, for every order of
  blocks and every successor and predecessor relation: it reaches a state on which a
  full pass changes nothing, and the dataflow sets of that state contain the sets it
  started from. Each pass that changes something makes one of the sets of a block
  strictly larger and none smaller, and all of them are bounded.
\<close>

theorem ComputeLiveness_terminates:
  assumes "\<forall>B. sizes_ok (BBStates S B) \<and> PreSeeded (BBStates S B)"
  shows "\<exists>S'. ComputeLiveness_loop F S = Some S'
     \<and> ComputeLiveness_pass F S' = (S', False)
     \<and> (\<forall>B. bits (LiveIn (BBStates S B)) \<subseteq> bits (LiveIn (BBStates S' B))
           \<and> bits (LiveOut (BBStates S B)) \<subseteq> bits (LiveOut (BBStates S' B))
           \<and> bits (UnrootedIn (BBStates S B)) \<subseteq> bits (UnrootedIn (BBStates S' B))
           \<and> bits (UnrootedOut (BBStates S B)) \<subseteq> bits (UnrootedOut (BBStates S' B)))"
proof -
  from assms have "flow_sizes S" "inflationary F S"
    using PreSeeded_flow_sizes PreSeeded_inflationary by blast+
  from ComputeLiveness_loop_terminates [OF this] obtain S' where
    S': "ComputeLiveness_loop F S = Some S'" "state_le S S'" "ComputeLiveness_pass F S' = (S', False)"
    by blast
  from state_le_D [OF S'(2)] S'(1,3) show ?thesis by blast
qed

text \<open>
  A function with an unreachable block: block \<open>0\<close> (the entry) defines \<open>0\<close> and branches
  to block \<open>2\<close>; block \<open>1\<close> has no predecessor, defines \<open>1\<close> and branches to block \<open>2\<close>;
  block \<open>2\<close> starts with the tracked phi \<open>2\<close> of \<open>0\<close> and \<open>1\<close>. The state is the one
  LocalScan leaves. The reverse postorder traversal visits the blocks \<open>0\<close> and \<open>2\<close>.
\<close>

definition unreachable_phi_cfg :: Function where
  "unreachable_phi_cfg = \<lparr> Blocks = [0, 1, 2], RPOT = [0, 2],
     successors = (\<lambda>_. [])(0 := [2], 1 := [2]),
     IsReturnBlock = (\<lambda>B. B = 2) \<rparr>"

definition unreachable_phi_state :: State where
  "unreachable_phi_state = State0\<lparr> MaxPtrNumber := 2,
     BBStates := (\<lambda>_. BBState0)
       (0 := BBState0\<lparr> Defs := [True], PhiOuts := [True], UpExposedUsesUnrooted := [False],
                UpExposedUses := [False], DownExposedUnrooted := [True], LiveIn := [False],
                UnrootedOut := [True], Done := True \<rparr>,
        1 := BBState0\<lparr> Defs := [False, True], PhiOuts := [False, True],
                UpExposedUsesUnrooted := [False, False], UpExposedUses := [False, False],
                DownExposedUnrooted := [False, True], LiveIn := [False, False],
                UnrootedOut := [False, True], Done := True \<rparr>,
        2 := BBState0\<lparr> Defs := [False, False, True], PhiOuts := [False, False, False],
                UpExposedUsesUnrooted := [False, False, False],
                UpExposedUses := [False, False, False],
                DownExposedUnrooted := [False, False, True], LiveIn := [False, False, False],
                UnrootedOut := [False, False, True], Done := True \<rparr>) \<rparr>"

lemma unreachable_phi_state_seeded:
  "\<forall>B. sizes_ok (BBStates unreachable_phi_state B) \<and> PreSeeded (BBStates unreachable_phi_state B)"
  by (simp add: unreachable_phi_state_def State0_def BBState0_def sizes_ok_def PreSeeded_def bits_Cons)

theorem ComputeLiveness_terminates_witness:
  "\<exists>S'. ComputeLiveness_loop unreachable_phi_cfg unreachable_phi_state = Some S'
     \<and> ComputeLiveness_pass unreachable_phi_cfg S' = (S', False)"
  using ComputeLiveness_terminates [OF unreachable_phi_state_seeded, of unreachable_phi_cfg]
  by blast

theorem ComputeLiveness_fixpoint_equations_witness:
  "\<exists>S'. ComputeLiveness_loop unreachable_phi_cfg unreachable_phi_state = Some S'
     \<and> bits (LiveOut (BBStates S' 0)) =
         bits (PhiOuts (BBStates S' 0))
         \<union> (\<Union>Succ \<in> set (successors unreachable_phi_cfg 0). bits (LiveIn (BBStates S' Succ)))
     \<and> bits (LiveIn (BBStates S' 1)) =
         bits (UpExposedUses (BBStates S' 1)) \<union> bits (UpExposedUsesUnrooted (BBStates S' 1))
         \<union> (bits (LiveOut (BBStates S' 1)) - bits (Defs (BBStates S' 1)))"
proof -
  have ok: "flow_sizes unreachable_phi_state"
    using PreSeeded_flow_sizes [OF unreachable_phi_state_seeded] .
  have inf: "inflationary unreachable_phi_cfg unreachable_phi_state"
    using PreSeeded_inflationary unreachable_phi_state_seeded by blast
  from ComputeLiveness_loop_terminates [OF ok inf] obtain S' where
    S': "ComputeLiveness_loop unreachable_phi_cfg unreachable_phi_state = Some S'" by blast
  have hyp: "\<forall>B. sizes_ok (BBStates unreachable_phi_state B) \<and>
      length (LiveOut (BBStates unreachable_phi_state B)) \<le> length (Defs (BBStates unreachable_phi_state B))"
    using ok by (simp add: flow_sizes_def)
  have seeded: "B \<notin> set (RPOT unreachable_phi_cfg) \<longrightarrow> PreSeeded (BBStates unreachable_phi_state B)" for B
    using unreachable_phi_state_seeded by simp
  have mem: "0 \<in> set (RPOT unreachable_phi_cfg)" by (simp add: unreachable_phi_cfg_def)
  from ComputeLiveness_fixpoint_equations [OF S' hyp seeded, of 0, THEN conjunct2] mem
  have out: "bits (LiveOut (BBStates S' 0)) =
         bits (PhiOuts (BBStates S' 0))
         \<union> (\<Union>Succ \<in> set (successors unreachable_phi_cfg 0). bits (LiveIn (BBStates S' Succ)))"
    by (rule mp)
  note inn = ComputeLiveness_fixpoint_equations [OF S' hyp seeded, of 1, THEN conjunct1]
  from S' out inn show ?thesis by (intro exI [of _ S'] conjI)
qed

text \<open>
  C3 as stated fails for the unreachable block \<open>1\<close>: its \<open>PhiOuts\<close> holds \<open>1\<close>, but the
  loop never visits it and its \<open>LiveOut\<close> stays empty.
\<close>

theorem ComputeLiveness_skips_unreachable:
  "\<exists>S'. ComputeLiveness_loop unreachable_phi_cfg unreachable_phi_state = Some S'
     \<and> bits (LiveOut (BBStates S' 1)) \<noteq>
         bits (PhiOuts (BBStates S' 1)) \<union>
         (\<Union>Succ \<in> set (successors unreachable_phi_cfg 1). bits (LiveIn (BBStates S' Succ)))"
  apply (subst ComputeLiveness_loop.simps)
  apply (simp add: unreachable_phi_cfg_def unreachable_phi_state_def flow_defs eval_defs)
  apply (subst ComputeLiveness_loop.simps)
  apply (simp add: flow_defs eval_defs bits_Cons)
  done

section \<open>Properties of the coloring\<close>

lemma MarkUsedColors_marks:
  "MarkUsedColors Colors P Ns U = Inr U' \<Longrightarrow>
     length U' = length U \<and> (\<forall>k. k < length U \<and> U ! k \<longrightarrow> U' ! k) \<and>
     (\<forall>nb. nb \<in> set Ns \<longrightarrow> 0 \<le> nb \<and> nat nb < length Colors \<and>
        (Colors ! nat nb \<noteq> -1 \<and> P \<le> Colors ! nat nb \<longrightarrow>
           nat (Colors ! nat nb - P) < length U' \<and> U' ! nat (Colors ! nat nb - P)))"
proof (induction Ns arbitrary: U)
  case Nil
  then show ?case by simp
next
  case (Cons nb rest)
  from Cons.prems obtain c where c: "vec_at Colors nb = Inr c"
    by (auto split: sum.splits)
  then have rng: "0 \<le> nb" "nat nb < length Colors" and cval: "c = Colors ! nat nb"
    by (simp_all add: vec_at_Inr)
  show ?case
  proof (cases "c = -1 \<or> c < P")
    case True
    with Cons.prems c have "MarkUsedColors Colors P rest U = Inr U'"
      by (auto split: if_splits)
    from Cons.IH [OF this] rng cval True show ?thesis by auto
  next
    case False
    with Cons.prems c have inb: "nat (c - P) < length U"
      and rec: "MarkUsedColors Colors P rest (U[nat (c - P) := True]) = Inr U'"
      by (auto split: if_splits)
    note IH = Cons.IH [OF rec]
    from IH have len: "length U' = length U" by simp
    from IH have keep: "\<And>k. k < length U \<Longrightarrow> (U[nat (c - P) := True]) ! k \<Longrightarrow> U' ! k"
      by simp
    from IH have rest: "\<forall>nb. nb \<in> set rest \<longrightarrow> 0 \<le> nb \<and> nat nb < length Colors \<and>
        (Colors ! nat nb \<noteq> -1 \<and> P \<le> Colors ! nat nb \<longrightarrow>
           nat (Colors ! nat nb - P) < length U' \<and> U' ! nat (Colors ! nat nb - P))"
      by blast
    have here: "U' ! nat (c - P)" using keep [of "nat (c - P)"] inb by simp
    have mono: "\<forall>k. k < length U \<and> U ! k \<longrightarrow> U' ! k"
    proof (intro allI impI)
      fix k assume k: "k < length U \<and> U ! k"
      with inb have "(U[nat (c - P) := True]) ! k" by (simp add: nth_list_update)
      with keep k show "U' ! k" by blast
    qed
    from len mono rest here inb rng cval show ?thesis by auto
  qed
qed

lemma find_first_flip:
  "find_first (bv_flip U) = f \<Longrightarrow> 0 \<le> f \<Longrightarrow> nat f < length U \<and> \<not> U ! nat f"
  using find_from_cases [of "bv_flip U" 0]
  by (auto simp: find_first_def bv_flip_def)

text \<open>No two neighbours share a color from \<open>P\<close> on.\<close>

definition proper_coloring :: "int list list \<Rightarrow> int \<Rightarrow> int list \<Rightarrow> bool" where
  "proper_coloring Ns P Colors \<longleftrightarrow>
     (\<forall>i j. i < length Colors \<and> j < length Colors \<and> i \<noteq> j \<and>
            int j \<in> set (Ns ! i) \<and> int i \<in> set (Ns ! j) \<and> Colors ! i = Colors ! j
        \<longrightarrow> Colors ! i < P)"

lemma ColorElement_proper:
  assumes pc: "proper_coloring Ns P Colors" and P: "0 \<le> P"
    and step: "ColorElement Ns P a (Colors, M) = Inr (Colors', M')"
  shows "proper_coloring Ns P Colors' \<and> length Colors' = length Colors"
proof -
  from step obtain c where c: "vec_at Colors a = Inr c"
    by (auto simp: ColorElement_def split: sum.splits)
  then have a: "0 \<le> a" "nat a < length Colors" and cval: "c = Colors ! nat a"
    by (simp_all add: vec_at_Inr)
  show ?thesis
  proof (cases "c \<noteq> -1")
    case True
    with step c pc show ?thesis by (simp add: ColorElement_def)
  next
    case False
    then have uncolored: "Colors ! nat a = -1" using cval by simp
    from step c False obtain An where An: "vec_at Ns a = Inr An"
      by (auto simp: ColorElement_def split: sum.splits)
    then have An_eq: "An = Ns ! nat a" by (simp add: vec_at_Inr)
    show ?thesis
    proof (cases "An = []")
      case True
      with step c False An pc show ?thesis by (simp add: ColorElement_def)
    next
      case ne: False
      from step c False An ne obtain U where
        U: "MarkUsedColors Colors P An (replicate (nat (M + 2)) False) = Inr U" and
        C': "Colors' = Colors[nat a := find_first (bv_flip U) + P]"
        by (auto simp: ColorElement_def Let_def split: sum.splits)
      define f where "f = find_first (bv_flip U)"
      note marks = MarkUsedColors_marks [OF U]
      have len: "length Colors' = length Colors" by (simp add: C')
      have clash: False if j: "j < length Colors" "j \<noteq> nat a" "int j \<in> set (Ns ! nat a)"
        and eq: "Colors ! j = f + P" and big: "P \<le> f + P" for j
      proof -
        from j(3) An_eq have "int j \<in> set An" by simp
        with marks have "Colors ! nat (int j) \<noteq> -1 \<and> P \<le> Colors ! nat (int j) \<longrightarrow>
           nat (Colors ! nat (int j) - P) < length U \<and> U ! nat (Colors ! nat (int j) - P)"
          by blast
        moreover have "Colors ! j \<noteq> -1" using eq big P by simp
        ultimately have "U ! nat f" using eq big by simp
        moreover from big have "0 \<le> f" by simp
        with find_first_flip [of U f] have "\<not> U ! nat f" by (simp add: f_def)
        ultimately show False by simp
      qed
      have "proper_coloring Ns P Colors'"
        unfolding proper_coloring_def
      proof (intro allI impI)
        fix i j
        assume h: "i < length Colors' \<and> j < length Colors' \<and> i \<noteq> j \<and>
            int j \<in> set (Ns ! i) \<and> int i \<in> set (Ns ! j) \<and> Colors' ! i = Colors' ! j"
        then have ij: "i < length Colors" "j < length Colors" "i \<noteq> j"
          "int j \<in> set (Ns ! i)" "int i \<in> set (Ns ! j)" "Colors' ! i = Colors' ! j"
          using len by simp_all
        show "Colors' ! i < P"
        proof (rule ccontr)
          assume "\<not> Colors' ! i < P"
          then have big: "P \<le> Colors' ! i" by simp
          consider (i) "i = nat a" | (j) "j = nat a" | (none) "i \<noteq> nat a" "j \<noteq> nat a" by blast
          then show False
          proof cases
            case i
            then have "Colors' ! i = f + P" using ij(1) by (simp add: C' f_def)
            moreover have "Colors' ! j = Colors ! j" using i ij(3) by (simp add: C')
            ultimately show False using clash [of j] ij i big by simp
          next
            case j
            then have "Colors' ! j = f + P" using ij(2) by (simp add: C' f_def)
            moreover have "Colors' ! i = Colors ! i" using j ij(3) by (simp add: C')
            ultimately show False using clash [of i] ij j big by simp
          next
            case none
            then have "Colors' ! i = Colors ! i" "Colors' ! j = Colors ! j" by (simp_all add: C')
            moreover from pc ij(1-5) have "Colors ! i = Colors ! j \<longrightarrow> Colors ! i < P"
              unfolding proper_coloring_def by blast
            ultimately show False using ij(6) big by simp
          qed
        qed
      qed
      with len show ?thesis by simp
    qed
  qed
qed

lemma GreedyColoring_proper_aux:
  assumes "GreedyColoring Ns P It CM = Some r"
  shows "0 \<le> P \<longrightarrow> proper_coloring Ns P (fst CM) \<longrightarrow>
     (\<forall>Colors. r = Inr Colors \<longrightarrow> proper_coloring Ns P Colors \<and> length Colors = length (fst CM))"
proof (rule GreedyColoring.raw_induct
    [where P = "\<lambda>Ns P It CM r. 0 \<le> P \<longrightarrow> proper_coloring Ns P (fst CM) \<longrightarrow>
     (\<forall>Colors. r = Inr Colors \<longrightarrow> proper_coloring Ns P Colors \<and> length Colors = length (fst CM))",
     OF _ assms], goal_cases)
  case (1 loop Ns P It CM r)
  show ?case
  proof (intro impI allI)
    fix Colors
    assume P: "0 \<le> P" and pc: "proper_coloring Ns P (fst CM)" and r: "r = Inr Colors"
    obtain C M where CM: "CM = (C, M)" by (cases CM)
    from 1(2) r obtain It' a where nxt: "PEO_next Ns It = Inr (It', a)"
      by (auto split: sum.splits)
    show "proper_coloring Ns P Colors \<and> length Colors = length (fst CM)"
    proof (cases "a = -1")
      case True
      with 1(2) nxt r pc show ?thesis by simp
    next
      case False
      with 1(2) nxt r obtain CM' where
        ce: "ColorElement Ns P a CM = Inr CM'" and rec: "loop Ns P It' CM' = Some r"
        by (auto split: sum.splits)
      obtain C' M' where CM': "CM' = (C', M')" by (cases CM')
      from ColorElement_proper [OF _ P ce [unfolded CM CM']] pc CM
      have "proper_coloring Ns P C'" "length C' = length C" by simp_all
      with 1(1) [OF rec] P r CM CM' show ?thesis by simp
    qed
  qed
qed

text \<open>After the pre-assignment every color is below \<open>PreAssignedColors\<close>.\<close>

definition preassigned :: "int list \<times> int \<Rightarrow> bool" where
  "preassigned CP \<longleftrightarrow> 0 \<le> snd CP \<and> (\<forall>k. k < length (fst CP) \<longrightarrow> fst CP ! k < snd CP)"

lemma PreAssign_bits_inv:
  "PreAssign_bits Is CP = Inr CP' \<Longrightarrow> preassigned CP \<Longrightarrow>
   preassigned CP' \<and> length (fst CP') = length (fst CP)"
proof (induction Is arbitrary: CP)
  case Nil
  then show ?case by simp
next
  case (Cons Idx rest)
  obtain Colors P where CP: "CP = (Colors, P)" by (cases CP)
  from Cons.prems(1) CP obtain c where c: "vec_at Colors Idx = Inr c"
    by (auto split: sum.splits)
  show ?case
  proof (cases "c = -1")
    case True
    with Cons.prems(1) CP c have rec: "PreAssign_bits rest (Colors[nat Idx := P], P + 1) = Inr CP'"
      by simp
    have "preassigned (Colors[nat Idx := P], P + 1)"
      unfolding preassigned_def
    proof (intro conjI allI impI)
      show "0 \<le> snd (Colors[nat Idx := P], P + 1)" using Cons.prems(2) CP by (simp add: preassigned_def)
      fix k assume "k < length (fst (Colors[nat Idx := P], P + 1))"
      then have k: "k < length Colors" by simp
      with Cons.prems(2) CP have "Colors ! k < P" by (simp add: preassigned_def)
      with k show "fst (Colors[nat Idx := P], P + 1) ! k < snd (Colors[nat Idx := P], P + 1)"
        by (cases "k = nat Idx") simp_all
    qed
    from Cons.IH [OF rec this] CP show ?thesis by simp
  next
    case False
    with Cons.prems(1) CP c have rec: "PreAssign_bits rest (Colors, P) = Inr CP'" by simp
    from Cons.IH [OF rec] Cons.prems(2) CP show ?thesis by simp
  qed
qed

lemma PreAssign_loop_inv:
  "PreAssign_loop S its CP = Inr CP' \<Longrightarrow> preassigned CP \<Longrightarrow>
   preassigned CP' \<and> length (fst CP') = length (fst CP)"
proof (induction its arbitrary: CP)
  case Nil
  then show ?case by simp
next
  case (Cons it rest)
  from Cons.prems(1) obtain Num LS CP1 where
    b: "PreAssign_bits (set_bits LS) CP = Inr CP1" and rec: "PreAssign_loop S rest CP1 = Inr CP'"
    by (auto split: option.splits sum.splits)
  from PreAssign_bits_inv [OF b Cons.prems(2)] Cons.IH [OF rec] show ?case by simp
qed

lemma PreAssign_inv:
  assumes "PreAssign S = Inr (Colors, P)"
  shows "0 \<le> P" "length Colors = nat (MaxPtrNumber S + 1)" "\<And>k. k < length Colors \<Longrightarrow> Colors ! k < P"
proof -
  have "preassigned (replicate (nat (MaxPtrNumber S + 1)) (-1), 0)"
    by (simp add: preassigned_def)
  from PreAssign_loop_inv [OF assms [unfolded PreAssign_def] this]
  show "0 \<le> P" "length Colors = nat (MaxPtrNumber S + 1)" "\<And>k. k < length Colors \<Longrightarrow> Colors ! k < P"
    by (simp_all add: preassigned_def)
qed

subsection \<open>The interference graph\<close>

lemma ComputeLiveSets_safepoints_Neighbors:
  "ComputeLiveSets_safepoints gp xs S = Inr S' \<Longrightarrow> Neighbors S' = Neighbors S"
proof (induction xs arbitrary: S)
  case Nil
  then show ?case by simp
next
  case (Cons x xs)
  obtain sp idx where x: "x = (sp, idx)" by (cases x)
  from Cons.prems x obtain LS where
    "ComputeLiveSets_safepoints gp xs (S\<lparr>LiveSets := (LiveSets S)[nat idx := LS]\<rparr>) = Inr S'"
    by (auto split: sum.splits)
  from Cons.IH [OF this] show ?case by simp
qed

lemma ComputeLiveSets_safepoints_frame:
  "ComputeLiveSets_safepoints gp xs S = Inr S' \<Longrightarrow>
   SafepointNumbering S' = SafepointNumbering S \<and> MaxPtrNumber S' = MaxPtrNumber S"
proof (induction xs arbitrary: S)
  case Nil
  then show ?case by simp
next
  case (Cons x xs)
  obtain sp idx where x: "x = (sp, idx)" by (cases x)
  from Cons.prems x obtain LS where
    "ComputeLiveSets_safepoints gp xs (S\<lparr>LiveSets := (LiveSets S)[nat idx := LS]\<rparr>) = Inr S'"
    by (auto split: sum.splits)
  from Cons.IH [OF this] show ?case by simp
qed

lemma CollectNeighborBits_super:
  "CollectNeighborBits LSs i sps NB = Inr NB' \<Longrightarrow>
   bits NB \<subseteq> bits NB' \<and>
   (\<forall>sp idx. (sp, idx) \<in> set sps \<and> i \<in> bits (LSs ! nat idx) \<longrightarrow> bits (LSs ! nat idx) \<subseteq> bits NB')"
proof (induction sps arbitrary: NB)
  case Nil
  then show ?case by simp
next
  case (Cons x sps)
  obtain sp idx where x: "x = (sp, idx)" by (cases x)
  from Cons.prems x obtain LS where LS: "vec_at LSs idx = Inr LS"
    by (auto split: sum.splits)
  then have LSeq: "LS = LSs ! nat idx" by (simp add: vec_at_Inr)
  show ?case
  proof (cases "i \<in> bits LS")
    case True
    then have "\<not> (length LS \<le> i \<or> \<not> LS ! i)" by (simp add: bits_def)
    with Cons.prems x LS have rec: "CollectNeighborBits LSs i sps (bv_or NB LS) = Inr NB'" by simp
    from Cons.IH [OF rec] have a: "bits NB \<subseteq> bits NB'" "bits LS \<subseteq> bits NB'"
      and b: "\<And>sp idx. (sp, idx) \<in> set sps \<Longrightarrow> i \<in> bits (LSs ! nat idx) \<Longrightarrow>
                bits (LSs ! nat idx) \<subseteq> bits NB'"
      by auto
    show ?thesis
    proof (intro conjI allI impI)
      show "bits NB \<subseteq> bits NB'" by fact
      fix sp' idx' assume h: "(sp', idx') \<in> set (x # sps) \<and> i \<in> bits (LSs ! nat idx')"
      show "bits (LSs ! nat idx') \<subseteq> bits NB'"
      proof (cases "(sp', idx') = x")
        case True
        with x LSeq a(2) show ?thesis by simp
      next
        case False
        with h have "(sp', idx') \<in> set sps" "i \<in> bits (LSs ! nat idx')" by simp_all
        then show ?thesis by (rule b)
      qed
    qed
  next
    case False
    then have "length LS \<le> i \<or> \<not> LS ! i" by (auto simp: bits_def)
    with Cons.prems x LS have rec: "CollectNeighborBits LSs i sps NB = Inr NB'" by simp
    from Cons.IH [OF rec] have a: "bits NB \<subseteq> bits NB'"
      and b: "\<And>sp idx. (sp, idx) \<in> set sps \<Longrightarrow> i \<in> bits (LSs ! nat idx) \<Longrightarrow>
                bits (LSs ! nat idx) \<subseteq> bits NB'"
      by auto
    show ?thesis
    proof (intro conjI allI impI)
      show "bits NB \<subseteq> bits NB'" by fact
      fix sp' idx' assume h: "(sp', idx') \<in> set (x # sps) \<and> i \<in> bits (LSs ! nat idx')"
      show "bits (LSs ! nat idx') \<subseteq> bits NB'"
      proof (cases "(sp', idx') = x")
        case True
        with x LSeq False h show ?thesis by simp
      next
        case False
        with h have "(sp', idx') \<in> set sps" "i \<in> bits (LSs ! nat idx')" by simp_all
        then show ?thesis by (rule b)
      qed
    qed
  qed
qed

lemma set_set_bits: "set (set_bits BV) = int ` bits BV"
  by (auto simp: set_bits_def bits_def)

lemma ComputeInterference_loop_spec:
  "ComputeInterference_loop is S1 = Inr S \<Longrightarrow>
   length (Neighbors S) = length (Neighbors S1) + length is \<and>
   take (length (Neighbors S1)) (Neighbors S) = Neighbors S1 \<and>
   (\<forall>k sp idx. k < length is \<and> (sp, idx) \<in> set (SafepointNumbering S1)
        \<and> is ! k \<in> bits (LiveSets S1 ! nat idx)
      \<longrightarrow> int ` bits (LiveSets S1 ! nat idx) \<subseteq> set (Neighbors S ! (length (Neighbors S1) + k)))"
proof (induction "is" arbitrary: S1)
  case Nil
  then show ?case by simp
next
  case (Cons i rest)
  from Cons.prems obtain NB where
    NB: "CollectNeighborBits (LiveSets S1) i (SafepointNumbering S1)
           (replicate (nat (MaxPtrNumber S1)) False) = Inr NB" and
    rec: "ComputeInterference_loop rest (S1\<lparr>Neighbors := Neighbors S1 @ [set_bits NB]\<rparr>) = Inr S"
    by (auto split: sum.splits)
  let ?S2 = "S1\<lparr>Neighbors := Neighbors S1 @ [set_bits NB]\<rparr>"
  let ?n = "length (Neighbors S1)"
  note IH = Cons.IH [OF rec]
  from IH have len: "length (Neighbors S) = ?n + length (i # rest)" by simp
  from IH have tk: "take (Suc ?n) (Neighbors S) = Neighbors S1 @ [set_bits NB]" by simp
  then have "take ?n (take (Suc ?n) (Neighbors S)) = take ?n (Neighbors S1 @ [set_bits NB])" by simp
  then have pre: "take ?n (Neighbors S) = Neighbors S1" by (simp add: min_def)
  have at_n: "Neighbors S ! ?n = set_bits NB"
  proof -
    have "Neighbors S ! ?n = take (Suc ?n) (Neighbors S) ! ?n" by simp
    also have "\<dots> = set_bits NB" unfolding tk by simp
    finally show ?thesis .
  qed
  have main: "int ` bits (LiveSets S1 ! nat idx) \<subseteq> set (Neighbors S ! (?n + k))"
    if k: "k < length (i # rest)" and mem: "(sp, idx) \<in> set (SafepointNumbering S1)"
      and live: "(i # rest) ! k \<in> bits (LiveSets S1 ! nat idx)" for k sp idx
  proof (cases k)
    case 0
    with live have "i \<in> bits (LiveSets S1 ! nat idx)" by simp
    with CollectNeighborBits_super [OF NB] mem have "bits (LiveSets S1 ! nat idx) \<subseteq> bits NB" by blast
    then show ?thesis using 0 at_n by (auto simp: set_set_bits)
  next
    case (Suc k')
    with k live have "k' < length rest" "rest ! k' \<in> bits (LiveSets ?S2 ! nat idx)" by simp_all
    with IH mem have "int ` bits (LiveSets ?S2 ! nat idx) \<subseteq> set (Neighbors S ! (length (Neighbors ?S2) + k'))"
      by simp
    then show ?thesis using Suc by simp
  qed
  from len pre main show ?case by blast
qed

lemma ComputeLiveSets_interference:
  assumes run: "ComputeLiveSets getParent S0 = Inr S" and fresh: "Neighbors S0 = []"
    and mem: "(sp, idx) \<in> set (SafepointNumbering S)"
    and i: "i \<in> bits (LiveSets S ! nat idx)" "i < nat (MaxPtrNumber S + 1)"
    and j: "j \<in> bits (LiveSets S ! nat idx)"
  shows "int j \<in> set (Neighbors S ! i)" "length (Neighbors S) = nat (MaxPtrNumber S + 1)"
proof -
  from run obtain S1 where
    one: "ComputeLiveSets_safepoints getParent (SafepointNumbering S0) S0 = Inr S1" and
    two: "ComputeInterference_loop [0..<nat (MaxPtrNumber S1 + 1)] S1 = Inr S"
    by (auto simp: ComputeLiveSets_def split: sum.splits)
  have frame1: "Neighbors S1 = Neighbors S0"
  proof (rule ComputeLiveSets_safepoints_Neighbors [OF one]) qed
  from ComputeInterference_loop_frame [OF two] have S: "S = S1\<lparr>Neighbors := Neighbors S\<rparr>" .
  have eqs: "LiveSets S = LiveSets S1" "SafepointNumbering S = SafepointNumbering S1"
    "MaxPtrNumber S = MaxPtrNumber S1"
    by (subst S, simp)+
  note spec = ComputeInterference_loop_spec [OF two]
  from spec frame1 fresh eqs show "length (Neighbors S) = nat (MaxPtrNumber S + 1)" by simp
  from i(2) eqs have k: "i < length [0..<nat (MaxPtrNumber S1 + 1)]" by simp
  then have "[0..<nat (MaxPtrNumber S1 + 1)] ! i = i" by simp
  with spec k mem i(1) eqs have "int ` bits (LiveSets S1 ! nat idx) \<subseteq> set (Neighbors S ! (length (Neighbors S1) + i))"
    by metis
  with j eqs frame1 fresh show "int j \<in> set (Neighbors S ! i)" by auto
qed

text \<open>
  C1. \<open>S\<close> is the state after ComputeLiveSets (its live sets are the refined ones and
  its interference graph is computed from them), \<open>P\<close> the number of colors the
  pre-assignment for the returns-twice safepoints used. When ColorRoots returns
  \<open>Colors\<close>, two distinct identifiers with the same color, that color at least \<open>P\<close>,
  are never both in the live set of a safepoint.
\<close>

theorem ColorRoots_no_shared_slot:
  assumes "ComputeLiveSets getParent S0 = Inr S" and "Neighbors S0 = []"
    and "PreAssign S = Inr (Colors0, P)" and "ColorRoots S = Some (Inr Colors)"
    and "(Safepoint, idx) \<in> set (SafepointNumbering S)"
    and "i < length Colors" and "j < length Colors" and "i \<noteq> j"
    and "Colors ! i = Colors ! j" and "P \<le> Colors ! i"
  shows "\<not> (i \<in> bits (LiveSets S ! nat idx) \<and> j \<in> bits (LiveSets S ! nat idx))"
proof
  assume live: "i \<in> bits (LiveSets S ! nat idx) \<and> j \<in> bits (LiveSets S ! nat idx)"
  note pre = PreAssign_inv [OF assms(3)]
  have pc0: "proper_coloring (Neighbors S) P Colors0"
    using pre(3) by (auto simp: proper_coloring_def)
  from assms(4) assms(3) have
    "GreedyColoring (Neighbors S) P (PEOIterator_init (Neighbors S)) (Colors0, -1) = Some (Inr Colors)"
    by (simp add: ColorRoots_def)
  from GreedyColoring_proper_aux [OF this] pre(1) pc0
  have pc: "proper_coloring (Neighbors S) P Colors" and len: "length Colors = length Colors0"
    by simp_all
  from len pre(2) assms(6,7) have rng: "i < nat (MaxPtrNumber S + 1)" "j < nat (MaxPtrNumber S + 1)"
    by simp_all
  from ComputeLiveSets_interference(1) [OF assms(1,2,5) _ rng(1)] live
  have ji: "int j \<in> set (Neighbors S ! i)" by blast
  from ComputeLiveSets_interference(1) [OF assms(1,2,5) _ rng(2)] live
  have ij: "int i \<in> set (Neighbors S ! j)" by blast
  from pc assms(6-9) ji ij have "Colors ! i < P" unfolding proper_coloring_def by blast
  with assms(10) show False by simp
qed

text \<open>Two safepoints, the identifier \<open>0\<close> live at the first and \<open>1\<close> at the second:
  both get the color \<open>0\<close>.\<close>

definition disjoint_live_state :: State where
  "disjoint_live_state = State0\<lparr> MaxPtrNumber := 1, MaxSafepointNumber := 1,
     SafepointNumbering := [(10, 0), (11, 1)], ReverseSafepointNumbering := [10, 11],
     LiveSets := [[True], [False, True]], LiveIfLiveOut := [[], []] \<rparr>"

lemma disjoint_live_sets:
  "ComputeLiveSets (\<lambda>_. 0) disjoint_live_state =
     Inr (disjoint_live_state\<lparr> LiveSets := [[True], [False, True]], Neighbors := [[0], [1]] \<rparr>)"
  by (simp add: disjoint_live_state_def eval_defs bits_def upt_conv_Cons)

lemma disjoint_live_colors:
  "ColorRoots (disjoint_live_state\<lparr> LiveSets := [[True], [False, True]], Neighbors := [[0], [1]] \<rparr>)
     = Some (Inr [0, 0])"
  apply (simp add: disjoint_live_state_def color_defs State0_def upt_conv_Cons)
  apply (subst GreedyColoring.simps, simp add: color_defs upt_conv_Cons)
  apply (subst GreedyColoring.simps, simp add: color_defs upt_conv_Cons)
  apply (subst GreedyColoring.simps, simp add: color_defs upt_conv_Cons)
  done

theorem ColorRoots_no_shared_slot_witness:
  "\<exists>S Colors. ComputeLiveSets (\<lambda>_. 0) disjoint_live_state = Inr S
     \<and> ColorRoots S = Some (Inr Colors) \<and> Colors ! 0 = Colors ! 1
     \<and> \<not> (0 \<in> bits (LiveSets S ! nat 0) \<and> 1 \<in> bits (LiveSets S ! nat 0))
     \<and> \<not> (0 \<in> bits (LiveSets S ! nat 1) \<and> 1 \<in> bits (LiveSets S ! nat 1))"
proof -
  let ?S = "disjoint_live_state\<lparr> LiveSets := [[True], [False, True]], Neighbors := [[0], [1]] \<rparr>"
  have pre: "PreAssign ?S = Inr ([-1, -1], 0)"
    by (simp add: disjoint_live_state_def color_defs State0_def upt_conv_Cons)
  have fresh: "Neighbors disjoint_live_state = []"
    by (simp add: disjoint_live_state_def State0_def)
  have m0: "(10, 0) \<in> set (SafepointNumbering ?S)" and m1: "(11, 1) \<in> set (SafepointNumbering ?S)"
    by (simp_all add: disjoint_live_state_def)
  have "\<not> (0 \<in> bits (LiveSets ?S ! nat 0) \<and> 1 \<in> bits (LiveSets ?S ! nat 0))"
    by (rule ColorRoots_no_shared_slot [OF disjoint_live_sets fresh pre disjoint_live_colors m0]) simp_all
  moreover have "\<not> (0 \<in> bits (LiveSets ?S ! nat 1) \<and> 1 \<in> bits (LiveSets ?S ! nat 1))"
    by (rule ColorRoots_no_shared_slot [OF disjoint_live_sets fresh pre disjoint_live_colors m1]) simp_all
  ultimately show ?thesis using disjoint_live_sets disjoint_live_colors by simp
qed

section \<open>Properties of the frame\<close>

lemma MaxColor_of_fold:
  "fold (\<lambda>C MaxColor. if C > MaxColor then C else MaxColor) Colors m = Max (insert m (set Colors))"
proof (induction Colors arbitrary: m)
  case Nil
  then show ?case by simp
next
  case (Cons C Colors)
  have "Max (insert (if m < C then C else m) (set Colors)) = Max (insert m (insert C (set Colors)))"
  proof (cases "m < C")
    case True
    then have "Max (insert m (insert C (set Colors))) = max m (Max (insert C (set Colors)))"
      by simp
    also have "\<dots> = Max (insert C (set Colors))" using True
      by (metis List.finite_set Max_ge finite_insert insertI1 max.absorb2 less_le_trans less_imp_le not_le)
    finally show ?thesis using True by simp
  next
    case False
    then have "insert m (insert C (set Colors)) = insert C (insert m (set Colors))" by auto
    moreover have "Max (insert C (insert m (set Colors))) = max C (Max (insert m (set Colors)))"
      by simp
    moreover have "C \<le> Max (insert m (set Colors))" using False
      by (meson List.finite_set Max_ge finite_insert insertI1 le_less_linear order_trans)
    ultimately show ?thesis using False by (simp add: max.absorb2)
  qed
  with Cons.IH [of "if C > m then C else m"] show ?case by simp
qed

lemma MaxColor_of_Max: "MaxColor_of Colors = Max (insert (-1) (set Colors))"
  by (simp add: MaxColor_of_def MaxColor_of_fold)

lemma PlaceStores_bits_kind:
  "PlaceStores_bits S LL M Colors sp Is = Inr sts \<Longrightarrow>
   \<forall>x. x \<in> set sts \<longrightarrow> (\<exists>v s i. x = RootStore v s i)"
proof (induction Is arbitrary: sts)
  case Nil
  then show ?case by simp
next
  case (Cons Idx rest)
  show ?case
  proof (cases "HasBitSet LL (as_unsigned Idx)")
    case True
    with Cons.prems have "PlaceStores_bits S LL M Colors sp rest = Inr sts" by simp
    from Cons.IH [OF this] show ?thesis .
  next
    case False
    with Cons.prems obtain st sts' where
      st: "PlaceGCFrameStore S (as_unsigned Idx) M Colors (projr (vec_at (ReverseSafepointNumbering S) sp)) = Inr st"
      and rec: "PlaceStores_bits S LL M Colors sp rest = Inr sts'" and sts: "sts = st # sts'"
      by (auto split: sum.splits)
    from st have "\<exists>v s i. st = RootStore v s i"
      by (auto simp: PlaceGCFrameStore_def split: option.splits if_splits)
    with Cons.IH [OF rec] sts show ?thesis by auto
  qed
qed

lemma PlaceStores_safepoints_kind:
  "PlaceStores_safepoints S M Colors LL sps = Inr sts \<Longrightarrow>
   \<forall>x. x \<in> set sts \<longrightarrow> (\<exists>v s i. x = RootStore v s i)"
proof (induction sps arbitrary: LL sts)
  case Nil
  then show ?case by simp
next
  case (Cons sp rest)
  from Cons.prems obtain NowLive a b where
    a: "PlaceStores_bits S LL M Colors sp (set_bits NowLive) = Inr a" and
    b: "PlaceStores_safepoints S M Colors NowLive rest = Inr b" and sts: "sts = a @ b"
    by (auto split: sum.splits)
  from PlaceStores_bits_kind [OF a] Cons.IH [OF b] sts show ?case by auto
qed

lemma PlaceGCFrameStores_blocks_kind:
  "PlaceGCFrameStores_blocks F S M Colors Bs = Inr sts \<Longrightarrow>
   \<forall>x. x \<in> set sts \<longrightarrow> (\<exists>v s i. x = RootStore v s i)"
proof (induction Bs arbitrary: sts)
  case Nil
  then show ?case by simp
next
  case (Cons BB rest)
  show ?case
  proof (cases "HasSafepoint (BBStates S BB)")
    case False
    with Cons.prems have "PlaceGCFrameStores_blocks F S M Colors rest = Inr sts" by simp
    from Cons.IH [OF this] show ?thesis .
  next
    case True
    with Cons.prems obtain LI a b where
      a: "PlaceStores_safepoints S M Colors LI (rev (Safepoints (BBStates S BB))) = Inr a" and
      b: "PlaceGCFrameStores_blocks F S M Colors rest = Inr b" and sts: "sts = a @ b"
      by (auto split: sum.splits)
    from PlaceStores_safepoints_kind [OF a] Cons.IH [OF b] sts show ?thesis by auto
  qed
qed

lemma MaxColor_of_ge: "-1 \<le> MaxColor_of Colors"
  by (simp add: MaxColor_of_Max)

text \<open>
  C5. Whenever PlaceRootsAndUpdateCalls inserts a frame alloca, \<open>MaxColor\<close> is the
  largest color (or \<open>-1\<close>), the alloca has \<open>NRoots + 2\<close> slots with
  \<open>NRoots = MaxColor + 1 + |Allocas|\<close>, and the one store of the root count that the push
  sequence makes writes \<open>NRoots << 1\<close> into slot \<open>0\<close>. The numbers are 32-bit
  \<^verbatim>\<open>unsigned\<close>; below \<open>2^31\<close> roots they are the numbers themselves.
\<close>

theorem PlaceRootsAndUpdateCalls_frame:
  assumes "PlaceRootsAndUpdateCalls PtrSize F Colors S = Inr ins" and "FrameAlloca n \<in> set ins"
  shows "MaxColor_of Colors = Max (insert (-1) (set Colors))
     \<and> n = NRoots_of Colors S + 2
     \<and> PushStoreNRoots 0 (push_bit 1 (NRoots_of Colors S)) \<in> set ins
     \<and> (\<forall>slot v. PushStoreNRoots slot v \<in> set ins \<longrightarrow> slot = 0 \<and> v = push_bit 1 (NRoots_of Colors S))
     \<and> (MaxColor_of Colors + 1 + int (length (Allocas S)) + 2 < 2 ^ 31 \<longrightarrow>
          unat (NRoots_of Colors S) = nat (MaxColor_of Colors + 1) + length (Allocas S)
          \<and> unat n = nat (MaxColor_of Colors + 1) + length (Allocas S) + 2
          \<and> unat (push_bit 1 (NRoots_of Colors S) :: 32 word)
               = 2 * (nat (MaxColor_of Colors + 1) + length (Allocas S)))"
proof -
  let ?N = "NRoots_of Colors S"
  from assms have emitted: "MaxColor_of Colors \<noteq> -1 \<or> length (Allocas S) \<noteq> 0"
    by (auto simp: PlaceRootsAndUpdateCalls_def Let_def split: if_splits)
  with assms(1) obtain stores where
    st: "PlaceGCFrameStores F S (2 + word_of_nat (length (Allocas S))) Colors = Inr stores" and
    ins: "ins = [FrameAlloca (?N + 2), FrameZero (word_of_nat (PtrSize * unat (?N + 2)))]
             @ PushGCFrame ?N
             @ map (\<lambda>(k, AI). AllocaSlot AI (2 + word_of_nat k)) (enumerate 0 (Allocas S))
             @ stores @ concat (map PopGCFrame (filter (IsReturnBlock F) (Blocks F)))"
    by (auto simp: PlaceRootsAndUpdateCalls_def Let_def split: if_splits sum.splits)
  from st have kind: "\<forall>x. x \<in> set stores \<longrightarrow> (\<exists>v s i. x = RootStore v s i)"
    unfolding PlaceGCFrameStores_def by (rule PlaceGCFrameStores_blocks_kind)
  have n: "n = ?N + 2"
    using assms(2) kind unfolding ins by (auto simp: PushGCFrame_def PopGCFrame_def)
  have push: "PushStoreNRoots 0 (push_bit 1 ?N) \<in> set ins"
    unfolding ins by (simp add: PushGCFrame_def)
  have only: "\<forall>slot v. PushStoreNRoots slot v \<in> set ins \<longrightarrow> slot = 0 \<and> v = push_bit 1 ?N"
    using kind unfolding ins by (auto simp: PushGCFrame_def PopGCFrame_def)
  have arith: "unat ?N = nat (MaxColor_of Colors + 1) + length (Allocas S)
          \<and> unat n = nat (MaxColor_of Colors + 1) + length (Allocas S) + 2
          \<and> unat (push_bit 1 ?N :: 32 word) = 2 * (nat (MaxColor_of Colors + 1) + length (Allocas S))"
    if small: "MaxColor_of Colors + 1 + int (length (Allocas S)) + 2 < 2 ^ 31"
  proof -
    define k where "k = nat (MaxColor_of Colors + 1) + length (Allocas S)"
    have ge: "0 \<le> MaxColor_of Colors + 1" using MaxColor_of_ge [of Colors] by simp
    then have k_int: "int k = MaxColor_of Colors + 1 + int (length (Allocas S))" by (simp add: k_def)
    with small have kb: "int k + 2 < 2 ^ 31" by simp
    then have kb': "k + 2 < 2 ^ 31" by (metis of_nat_less_numeral_power_cancel_iff of_nat_add of_nat_numeral)
    have N: "word_of_nat k = ?N" by (simp add: NRoots_of_def k_int [symmetric])
    have small32: "k < 2 ^ LENGTH(32)" "k + 2 < 2 ^ LENGTH(32)" "2 * k < 2 ^ LENGTH(32)"
      using kb' by simp_all
    have u1: "unat ?N = k" by (rule of_nat_inverse [OF N small32(1)])
    have "word_of_nat (k + 2) = ?N + 2" by (simp add: N [symmetric])
    from of_nat_inverse [OF this small32(2)] have u2: "unat (?N + 2) = k + 2" .
    have "word_of_nat (2 * k) = (push_bit 1 ?N :: 32 word)"
      by (simp add: N [symmetric] push_bit_eq_mult)
    from of_nat_inverse [OF this small32(3)] have u3: "unat (push_bit 1 ?N :: 32 word) = 2 * k" .
    from u1 u2 u3 n show ?thesis by (simp add: k_def)
  qed
  from MaxColor_of_Max [of Colors] n push only arith show ?thesis by blast
qed

text \<open>A function of one block that returns.\<close>

definition single_block :: Function where
  "single_block = \<lparr> Blocks = [0], RPOT = [0], successors = (\<lambda>_. []), IsReturnBlock = (\<lambda>B. B = 0) \<rparr>"

lemmas place_defs = PlaceRootsAndUpdateCalls_def NRoots_of_def MaxColor_of_def PushGCFrame_def
  PopGCFrame_def PlaceGCFrameStores_def enumerate_eq_zip single_block_def

theorem PlaceRootsAndUpdateCalls_frame_witness:
  "PlaceRootsAndUpdateCalls 8 single_block [0, -1, 1] (State0\<lparr>Allocas := [7]\<rparr>)
     = Inr [FrameAlloca 5, FrameZero 40, PushStoreNRoots 0 6, PushStorePrev 1, PushStoreTop,
            AllocaSlot 7 2, PopFrame 0]
   \<and> PushStoreNRoots 0 (push_bit 1 (NRoots_of [0, -1, 1] (State0\<lparr>Allocas := [7]\<rparr>)))
        \<in> set [FrameAlloca 5, FrameZero 40, PushStoreNRoots 0 6, PushStorePrev 1, PushStoreTop,
            AllocaSlot 7 2, PopFrame 0]
   \<and> unat (5 :: 32 word) = nat (MaxColor_of [0, -1, 1] + 1) + length (Allocas (State0\<lparr>Allocas := [7]\<rparr>)) + 2"
proof -
  have run: "PlaceRootsAndUpdateCalls 8 single_block [0, -1, 1] (State0\<lparr>Allocas := [7]\<rparr>)
     = Inr [FrameAlloca 5, FrameZero 40, PushStoreNRoots 0 6, PushStorePrev 1, PushStoreTop,
            AllocaSlot 7 2, PopFrame 0]"
    by (simp add: place_defs State0_def BBState0_def)
  have mem: "FrameAlloca 5 \<in> set [FrameAlloca 5, FrameZero 40, PushStoreNRoots 0 6, PushStorePrev 1,
      PushStoreTop, AllocaSlot 7 2, PopFrame 0]" by simp
  have small: "MaxColor_of [0, -1, 1] + 1 + int (length (Allocas (State0\<lparr>Allocas := [7]\<rparr>))) + 2 < 2 ^ 31"
    by (simp add: MaxColor_of_def)
  from PlaceRootsAndUpdateCalls_frame [OF run mem] small run show ?thesis by blast
qed

section \<open>Properties of the local scan\<close>










subsection \<open>Two functions with a cast back into the tracked address space\<close>

definition example_pass :: LateLowerGCFrame where
  "example_pass = \<lparr> T_prjlvalue = Some (PointerTy (OtherTy 0) Tracked),
     ptls_getter = Some ''jl_get_ptls_states'', gc_flush_func = None,
     pointer_from_objref_func = None, alloc_obj_func = None \<rparr>"

definition cast_back_kinds :: "Value \<Rightarrow> ValueKind" where
  "cast_back_kinds = (\<lambda>_. Constant)
     (0 := CallInst \<lparr> CalledFunction = Some ''jl_get_ptls_states'', ArgOperands = [],
                      BundleOperands = [], CallingConv = 0, canReturnTwice = False \<rparr>,
      1 := CallInst \<lparr> CalledFunction = Some ''f'', ArgOperands = [],
                      BundleOperands = [], CallingConv = 0, canReturnTwice = False \<rparr>,
      2 := AddrSpaceCastInst 1,
      3 := OtherTerminator [],
      4 := AddrSpaceCastInst 2,
      5 := ReturnInst [])"

definition cast_back_types :: "Value \<Rightarrow> Ty" where
  "cast_back_types = (\<lambda>_. OtherTy 1)
     (0 := PointerTy (OtherTy 2) 0,
      1 := PointerTy (OtherTy 0) Tracked,
      2 := PointerTy (OtherTy 0) Derived,
      4 := PointerTy (OtherTy 0) Tracked)"


lemmas scan_defs = LocalScan_inst_def LocalScan_call_def LocalScan_def_uses_def MaybeNoteDef_def
  Number_def Number_base_def FindBaseValue.simps FindBaseValue_step_def FindBaseValue_assert_def
  cache_hit_def getValueAddrSpace_def isSpecialPtr_def isUnionRep_def isSpecialPtrVec_def
  isPointerTy_def NoteDef_def bv_set_def MaybeResize_def NoteOperandUses_def operands_def
  NoteSafepoint_def isIntrinsicInst_def isIntrinsic_def isKnownNonSafepoint_def
  Tracked_def Derived_def FirstSpecial_def LastSpecial_def as_unsigned_def bv_resize_def
  State0_def BBState0_def example_pass_def cast_back_kinds_def cast_back_types_def Let_def



lemmas scan_loop_defs = LocalScan_def LocalScan_block_def LocalScan_insts.simps PreSeed_def
  bv_or_def bv_reset_def






section \<open>Properties of the whole pass\<close>

text \<open>The instructions that the local scan numbers as safepoints: the calls that pass the
  two tests of its branch for calls.\<close>

definition isSafepoint :: "LateLowerGCFrame \<Rightarrow> ValueKind \<Rightarrow> bool" where
  "isSafepoint P k =
     (case k of CallInst CI \<Rightarrow> \<not> isIntrinsicInst CI \<and> \<not> isKnownNonSafepoint P CI | _ \<Rightarrow> False)"

lemma doInitialization_names:
  assumes "doInitialization Mod = Inr P"
  shows "ptls_getter P = getFunction Mod ''jl_get_ptls_states''"
    and "pointer_from_objref_func P = getFunction Mod ''julia.pointer_from_objref''"
  using assms
  by (auto simp: doInitialization_def Let_def split: option.splits sum.splits)

lemma ptls_call_isSafepoint:
  assumes init: "doInitialization Mod = Inr P"
    and call: "kind M I = CallInst CI" "CalledFunction CI \<noteq> None" "CalledFunction CI = ptls_getter P"
  shows "isSafepoint P (kind M I)"
proof -
  from call(2,3) doInitialization_names(1) [OF init]
  have callee: "CalledFunction CI = Some ''jl_get_ptls_states''"
    by (auto simp: getFunction_def split: if_splits)
  have "pointer_from_objref_func P \<noteq> Some ''jl_get_ptls_states''"
    using doInitialization_names(2) [OF init] by (auto simp: getFunction_def split: if_splits)
  with callee call(1) show ?thesis
    by (simp add: isSafepoint_def isIntrinsicInst_def isIntrinsic_def isKnownNonSafepoint_def)
qed

lemma find_Some_D: "List.find Q xs = Some x \<Longrightarrow> x \<in> set xs \<and> Q x"
  by (induction xs) (auto split: if_splits)

lemma find_ptlsStates_Some:
  assumes "find_ptlsStates P M Is = Some I"
  shows "I \<in> set Is \<and> (\<exists>CI. kind M I = CallInst CI \<and> CalledFunction CI \<noteq> None
                      \<and> CalledFunction CI = ptls_getter P)"
proof -
  from find_Some_D [OF assms [unfolded find_ptlsStates_def]]
  have I: "I \<in> set Is" and
    Q: "case kind M I of CallInst CI \<Rightarrow> CalledFunction CI \<noteq> None \<and> CalledFunction CI = ptls_getter P
          | _ \<Rightarrow> False" by simp_all
  from Q obtain CI where "kind M I = CallInst CI" by (cases "kind M I") simp_all
  then have k: "kind M I = CallInst CI" .
  from Q [unfolded k ValueKind.case]
  have "CalledFunction CI \<noteq> None \<and> CalledFunction CI = ptls_getter P" .
  with I k show ?thesis by blast
qed

text \<open>
  C6. For every function that contains no safepoint, the pass allocates no GC frame and
  emits no push and no pop sequence: it only runs CleanupIR. The call of the getter of
  the thread-local state is itself a call that the local scan counts as a safepoint, so a
  function without safepoints has none in its entry block, and \<^verbatim>\<open>runOnFunction\<close>
  returns before the local scan.
\<close>

theorem no_safepoint_no_frame:
  assumes init: "doInitialization Mod = Inr P"
    and none: "\<forall>BB \<in> set (Blocks F). \<forall>I \<in> set (insts M BB). \<not> isSafepoint P (kind M I)"
    and blocks: "Blocks F \<noteq> []"
  shows "runOnFunction P classify PtrSize F M = Some (cleanup_only P classify PtrSize F M [])"
proof (cases "ptls_getter P = None")
  case True
  then show ?thesis by (simp add: runOnFunction_def)
next
  case False
  from blocks obtain Entry rest where B: "Blocks F = Entry # rest" by (cases "Blocks F") auto
  have "find_ptlsStates P M (insts M Entry) = None"
  proof (cases "find_ptlsStates P M (insts M Entry)")
    case None
    then show ?thesis .
  next
    case (Some I)
    from find_ptlsStates_Some [OF Some] obtain CI where
      I: "I \<in> set (insts M Entry)" and c: "kind M I = CallInst CI" "CalledFunction CI \<noteq> None"
        "CalledFunction CI = ptls_getter P" by blast
    from ptls_call_isSafepoint [OF init c] none I B show ?thesis by auto
  qed
  with False B show ?thesis by (simp add: runOnFunction_def)
qed

text \<open>A module that declares the getter of the thread-local state and nothing else the
  pass knows; its pass object is \<open>example_pass\<close>.\<close>

definition getter_module :: Module where
  "getter_module = [''jl_get_ptls_states'' \<mapsto> PointerTy (PointerTy (PointerTy (OtherTy 0) 0) 0) 0]"

lemma getter_module_pass: "doInitialization getter_module = Inr example_pass"
  by (simp add: doInitialization_def getter_module_def getFunction_def getElementType_def
        example_pass_def)

text \<open>A function of one block with an alloca of a tracked pointer and no call.\<close>

definition alloca_only_ir :: IR where
  "alloca_only_ir = \<lparr> kind = (\<lambda>_. Constant)(0 := AllocaInst (PointerTy (OtherTy 0) Tracked) False,
                                             1 := ReturnInst []),
     type_of = (\<lambda>_. OtherTy 1)(0 := PointerTy (PointerTy (OtherTy 0) Tracked) 0),
     insts = (\<lambda>_. [])(0 := [0, 1]), parent = (\<lambda>_. 0), fresh = 2 \<rparr>"

theorem no_safepoint_no_frame_witness:
  "doInitialization getter_module = Inr example_pass \<and>
   runOnFunction example_pass (\<lambda>_. (0, 0)) 8 single_block alloca_only_ir
     = Some (Inr \<lparr> FrameCode = [],
          Cleanup = \<lparr> Replacements = [], Frame = FrameErased, Changed = False \<rparr> \<rparr>)"
proof -
  have none: "\<forall>BB \<in> set (Blocks single_block). \<forall>I \<in> set (insts alloca_only_ir BB).
      \<not> isSafepoint example_pass (kind alloca_only_ir I)"
    by (simp add: single_block_def alloca_only_ir_def isSafepoint_def)
  have blocks: "Blocks single_block \<noteq> []" by (simp add: single_block_def)
  have "cleanup_only example_pass (\<lambda>_. (0, 0)) 8 single_block alloca_only_ir []
     = Inr \<lparr> FrameCode = [],
          Cleanup = \<lparr> Replacements = [], Frame = FrameErased, Changed = False \<rparr> \<rparr>"
    by (simp add: cleanup_only_def CleanupIR_def single_block_def alloca_only_ir_def example_pass_def)
  with no_safepoint_no_frame [OF getter_module_pass none blocks, of "\<lambda>_. (0, 0)" 8]
       getter_module_pass
  show ?thesis by simp
qed

text \<open>The same function with the call of the getter in front: the call is a safepoint, the
  phases run, and PlaceRootsAndUpdateCalls makes a frame for the alloca alone.\<close>

definition alloca_getter_ir :: IR where
  "alloca_getter_ir = \<lparr> kind = (\<lambda>_. Constant)
       (0 := AllocaInst (PointerTy (OtherTy 0) Tracked) False,
        1 := ReturnInst [],
        2 := CallInst \<lparr> CalledFunction = Some ''jl_get_ptls_states'', ArgOperands = [],
                        BundleOperands = [], CallingConv = 0, canReturnTwice = False \<rparr>),
     type_of = (\<lambda>_. OtherTy 1)(0 := PointerTy (PointerTy (OtherTy 0) Tracked) 0,
                                2 := PointerTy (OtherTy 2) 0),
     insts = (\<lambda>_. [])(0 := [2, 0, 1]), parent = (\<lambda>_. 0), fresh = 3 \<rparr>"

lemma alloca_with_getter_frame:
  "isSafepoint example_pass (kind alloca_getter_ir 2) \<and>
   (\<exists>c. runOnFunction example_pass (\<lambda>_. (0, 0)) 8 single_block alloca_getter_ir
     = Some (Inr \<lparr> FrameCode = [FrameAlloca 3, FrameZero 24, PushStoreNRoots 0 2, PushStorePrev 1,
                                 PushStoreTop, AllocaSlot 0 2, PopFrame 0],
                    Cleanup = c \<rparr>))"
  apply (rule conjI)
   apply (simp add: isSafepoint_def alloca_getter_ir_def isIntrinsicInst_def isIntrinsic_def
      isKnownNonSafepoint_def example_pass_def)
  apply (simp add: runOnFunction_def find_ptlsStates_def scan_defs scan_loop_defs alloca_getter_ir_def single_block_def)
  apply (simp add: PlaceRoots_pipeline_def ComputeLiveness_def)
  apply (subst ComputeLiveness_loop.simps)
  apply (simp add: flow_defs eval_defs)
  apply (simp add: color_defs)
  apply (subst GreedyColoring.simps)
  apply (simp add: color_defs)
  apply (simp add: place_defs AddInPredLiveOuts_def AddInPredLiveOuts_loop.simps predecessors_def
      eval_defs cleanup_only_def CleanupIR_def CleanupIR_call_def JLCALL_CC_def JLCALL_F_CC_def)
  done


section \<open>Properties of CleanupIR\<close>

text \<open>The calls that CleanupIR lowers as jlcalls: those of one of the two conventions that
  are not calls of one of the three functions it replaces first.\<close>

definition lowered_as_jlcall :: "LateLowerGCFrame \<Rightarrow> CallInfo \<Rightarrow> bool" where
  "lowered_as_jlcall P CI \<longleftrightarrow>
     (CallingConv CI = JLCALL_CC \<or> CallingConv CI = JLCALL_F_CC) \<and>
     \<not> (gc_flush_func P \<noteq> None \<and> CalledFunction CI = gc_flush_func P) \<and>
     \<not> (pointer_from_objref_func P \<noteq> None \<and> CalledFunction CI = pointer_from_objref_func P) \<and>
     \<not> (alloc_obj_func P \<noteq> None \<and> CalledFunction CI = alloc_obj_func P)"

text \<open>What the log of replacements holds for the jlcalls without frame arguments.\<close>

definition null_args_logged :: "LateLowerGCFrame \<Rightarrow> IR \<Rightarrow> (Instruction \<times> Replacement) list \<Rightarrow> bool" where
  "null_args_logged P M log \<longleftrightarrow>
     (\<forall>I rep CI. (I, rep) \<in> set log \<and> kind M I = CallInst CI \<and> lowered_as_jlcall P CI
          \<and> nframeargs_of CI = 0
        \<longrightarrow> (\<exists>front stores. rep = JLCallLowered front NullArgArray 0 stores))"

lemma CleanupIR_call_cases:
  assumes "CleanupIR_call P classify PtrSize M I CI st = Inr st'"
  shows "(lowered_as_jlcall P CI \<and>
            (\<exists>r. LowerJLCall P CI = Inr r \<and> Replaced st' = Replaced st @ [(I, r)]) \<and>
            maxframeargs st' = max (maxframeargs st) (nframeargs_of CI))
       \<or> (\<not> lowered_as_jlcall P CI \<and> maxframeargs st' = maxframeargs st \<and>
            (Replaced st' = Replaced st \<or> (\<exists>r. Replaced st' = Replaced st @ [(I, r)])))"
proof -
  define flush where "flush \<longleftrightarrow> gc_flush_func P \<noteq> None \<and> CalledFunction CI = gc_flush_func P"
  define objref where
    "objref \<longleftrightarrow> pointer_from_objref_func P \<noteq> None \<and> CalledFunction CI = pointer_from_objref_func P"
  define alloc where "alloc \<longleftrightarrow> alloc_obj_func P \<noteq> None \<and> CalledFunction CI = alloc_obj_func P"
  define jl where "jl \<longleftrightarrow> CallingConv CI = JLCALL_CC \<or> CallingConv CI = JLCALL_F_CC"
  have low: "lowered_as_jlcall P CI \<longleftrightarrow> jl \<and> \<not> flush \<and> \<not> objref \<and> \<not> alloc"
    by (simp add: lowered_as_jlcall_def flush_def objref_def alloc_def jl_def)
  note run = assms [unfolded CleanupIR_call_def Let_def, folded flush_def objref_def alloc_def jl_def]
  show ?thesis
  proof (cases flush)
    case True
    with run have "Replaced st' = Replaced st @ [(I, NoReplacement)] \<and> maxframeargs st' = maxframeargs st"
      by auto
    with True low show ?thesis by simp
  next
    case c1: False
    show ?thesis
    proof (cases objref)
      case True
      with c1 run have "Replaced st' = Replaced st @ [(I, PtrToIntInst
            (case ArgOperands CI @ BundleOperands CI of [] \<Rightarrow> None | a # _ \<Rightarrow> Some a))]
          \<and> maxframeargs st' = maxframeargs st"
        by auto
      with True low show ?thesis by simp
    next
      case c2: False
      show ?thesis
      proof (cases alloc)
        case True
        with c1 c2 run obtain r where
          "Replaced st' = Replaced st @ [(I, r)]" "maxframeargs st' = maxframeargs st"
          by (cases "LowerAllocObj classify PtrSize M CI") auto
        with True low show ?thesis by simp
      next
        case c3: False
        show ?thesis
        proof (cases jl)
          case True
          with c1 c2 c3 low have l: "lowered_as_jlcall P CI" by simp
          from c1 c2 c3 True run obtain r where "LowerJLCall P CI = Inr r"
            and "Replaced st' = Replaced st @ [(I, r)]"
            and "maxframeargs st' = max (maxframeargs st) (nframeargs_of CI)"
            by (cases "LowerJLCall P CI") auto
          with l show ?thesis by simp
        next
          case False
          with low have n: "\<not> lowered_as_jlcall P CI" by simp
          from c1 c2 c3 False run
          have "Replaced st' = Replaced st @ [(I, BundleStripped)] \<and> maxframeargs st' = maxframeargs st"
            by auto
          with n show ?thesis by simp
        qed
      qed
    qed
  qed
qed

lemma LowerJLCall_null:
  "LowerJLCall P CI = Inr r \<Longrightarrow> nframeargs_of CI = 0 \<Longrightarrow>
   \<exists>front stores. r = JLCallLowered front NullArgArray 0 stores"
  by (auto simp: LowerJLCall_def Let_def split: if_splits)

text \<open>The state of the loop after a list of instructions: every jlcall among them is
  logged, and \<^verbatim>\<open>maxframeargs\<close> is zero if it was and none of them has frame
  arguments.\<close>

definition cleaned :: "LateLowerGCFrame \<Rightarrow> IR \<Rightarrow> Instruction list \<Rightarrow> CleanupState \<Rightarrow> CleanupState \<Rightarrow> bool" where
  "cleaned P M Is st st' \<longleftrightarrow>
     (null_args_logged P M (Replaced st) \<longrightarrow> null_args_logged P M (Replaced st')) \<and>
     set (Replaced st) \<subseteq> set (Replaced st') \<and>
     (\<forall>I CI. I \<in> set Is \<and> kind M I = CallInst CI \<and> lowered_as_jlcall P CI
        \<longrightarrow> (\<exists>rep. (I, rep) \<in> set (Replaced st'))) \<and>
     (maxframeargs st = 0 \<and>
      (\<forall>I CI. I \<in> set Is \<and> kind M I = CallInst CI \<and> lowered_as_jlcall P CI \<longrightarrow> nframeargs_of CI = 0)
        \<longrightarrow> maxframeargs st' = 0)"

lemma cleaned_Nil: "cleaned P M [] st st"
  by (simp add: cleaned_def)

lemma cleaned_append:
  assumes 1: "cleaned P M Is st st1" and 2: "cleaned P M Js st1 st2"
  shows "cleaned P M (Is @ Js) st st2"
proof -
  let ?free = "\<lambda>Ks. \<forall>I CI. I \<in> set Ks \<and> kind M I = CallInst CI \<and> lowered_as_jlcall P CI
                  \<longrightarrow> nframeargs_of CI = 0"
  from 1 have a1: "null_args_logged P M (Replaced st) \<longrightarrow> null_args_logged P M (Replaced st1)"
    and b1: "set (Replaced st) \<subseteq> set (Replaced st1)"
    and c1: "\<forall>I CI. I \<in> set Is \<and> kind M I = CallInst CI \<and> lowered_as_jlcall P CI
               \<longrightarrow> (\<exists>rep. (I, rep) \<in> set (Replaced st1))"
    and d1: "maxframeargs st = 0 \<and> ?free Is \<longrightarrow> maxframeargs st1 = 0"
    unfolding cleaned_def by blast+
  from 2 have a2: "null_args_logged P M (Replaced st1) \<longrightarrow> null_args_logged P M (Replaced st2)"
    and b2: "set (Replaced st1) \<subseteq> set (Replaced st2)"
    and c2: "\<forall>I CI. I \<in> set Js \<and> kind M I = CallInst CI \<and> lowered_as_jlcall P CI
               \<longrightarrow> (\<exists>rep. (I, rep) \<in> set (Replaced st2))"
    and d2: "maxframeargs st1 = 0 \<and> ?free Js \<longrightarrow> maxframeargs st2 = 0"
    unfolding cleaned_def by blast+
  from a1 a2 have a: "null_args_logged P M (Replaced st) \<longrightarrow> null_args_logged P M (Replaced st2)"
    by blast
  from b1 b2 have b: "set (Replaced st) \<subseteq> set (Replaced st2)" by blast
  have c: "\<forall>I CI. I \<in> set (Is @ Js) \<and> kind M I = CallInst CI \<and> lowered_as_jlcall P CI
               \<longrightarrow> (\<exists>rep. (I, rep) \<in> set (Replaced st2))"
  proof (intro allI impI)
    fix I CI assume h: "I \<in> set (Is @ Js) \<and> kind M I = CallInst CI \<and> lowered_as_jlcall P CI"
    show "\<exists>rep. (I, rep) \<in> set (Replaced st2)"
    proof (cases "I \<in> set Js")
      case True
      with h c2 show ?thesis by blast
    next
      case False
      with h have "I \<in> set Is" by simp
      with h c1 obtain rep where "(I, rep) \<in> set (Replaced st1)" by blast
      with b2 show ?thesis by blast
    qed
  qed
  have d: "maxframeargs st = 0 \<and> ?free (Is @ Js) \<longrightarrow> maxframeargs st2 = 0"
  proof
    assume h: "maxframeargs st = 0 \<and> ?free (Is @ Js)"
    then have "?free Is" and fj: "?free Js" by auto
    with h d1 have "maxframeargs st1 = 0" by blast
    with fj d2 show "maxframeargs st2 = 0" by blast
  qed
  from a b c d show ?thesis unfolding cleaned_def by (intro conjI)
qed

lemma cleaned_call:
  assumes "CleanupIR_call P classify PtrSize M I CI st = Inr st'" and "kind M I = CallInst CI"
  shows "cleaned P M [I] st st'"
proof -
  note cs = CleanupIR_call_cases [OF assms(1)]
  have sub: "set (Replaced st) \<subseteq> set (Replaced st')" using cs by auto
  have logged: "null_args_logged P M (Replaced st')" if old: "null_args_logged P M (Replaced st)"
    unfolding null_args_logged_def
  proof (intro allI impI)
    fix J rep CJ
    assume a: "(J, rep) \<in> set (Replaced st') \<and> kind M J = CallInst CJ \<and> lowered_as_jlcall P CJ
          \<and> nframeargs_of CJ = 0"
    show "\<exists>front stores. rep = JLCallLowered front NullArgArray 0 stores"
    proof (cases "(J, rep) \<in> set (Replaced st)")
      case True
      with old a show ?thesis unfolding null_args_logged_def by blast
    next
      case False
      with a cs have new: "J = I" and r: "Replaced st' = Replaced st @ [(I, rep)]" by auto
      from new a assms(2) have CJ: "CJ = CI" by auto
      with a cs r have "LowerJLCall P CI = Inr rep" by auto
      from LowerJLCall_null [OF this] a CJ show ?thesis by simp
    qed
  qed
  have present: "\<exists>rep. (J, rep) \<in> set (Replaced st')"
    if "J \<in> set [I] \<and> kind M J = CallInst CJ \<and> lowered_as_jlcall P CJ" for J CJ
  proof -
    from that assms(2) have "J = I" "lowered_as_jlcall P CI" by auto
    with cs show ?thesis by auto
  qed
  have zero: "maxframeargs st' = 0"
    if "maxframeargs st = 0 \<and>
      (\<forall>J CJ. J \<in> set [I] \<and> kind M J = CallInst CJ \<and> lowered_as_jlcall P CJ \<longrightarrow> nframeargs_of CJ = 0)"
  proof -
    from that assms(2) have z: "lowered_as_jlcall P CI \<longrightarrow> nframeargs_of CI = 0" by auto
    from that have "maxframeargs st = 0" by simp
    with cs z show ?thesis by auto
  qed
  from sub logged present zero show ?thesis unfolding cleaned_def by blast
qed

lemma CleanupIR_insts_cleaned:
  "CleanupIR_insts P classify PtrSize M Is st = Inr st' \<Longrightarrow> cleaned P M Is st st'"
proof (induction Is arbitrary: st)
  case Nil
  then show ?case by (simp add: cleaned_Nil)
next
  case (Cons I rest)
  show ?case
  proof (cases "\<exists>CI. kind M I = CallInst CI")
    case True
    then obtain CI where k: "kind M I = CallInst CI" by blast
    with Cons.prems obtain st1 where
      1: "CleanupIR_call P classify PtrSize M I CI st = Inr st1" and
      2: "CleanupIR_insts P classify PtrSize M rest st1 = Inr st'"
      by (auto split: sum.splits)
    from cleaned_append [OF cleaned_call [OF 1 k] Cons.IH [OF 2]] show ?thesis by simp
  next
    case False
    with Cons.prems have 2: "CleanupIR_insts P classify PtrSize M rest st = Inr st'"
      by (cases "kind M I") simp_all
    from False have "cleaned P M [I] st st" by (simp add: cleaned_def)
    from cleaned_append [OF this Cons.IH [OF 2]] show ?thesis by simp
  qed
qed

lemma CleanupIR_blocks_cleaned:
  "CleanupIR_blocks P classify PtrSize M Bs st = Inr st' \<Longrightarrow>
   cleaned P M (concat (map (insts M) Bs)) st st'"
proof (induction Bs arbitrary: st)
  case Nil
  then show ?case by (simp add: cleaned_Nil)
next
  case (Cons B Bs)
  from Cons.prems obtain st1 where
    1: "CleanupIR_insts P classify PtrSize M (insts M B) st = Inr st1" and
    2: "CleanupIR_blocks P classify PtrSize M Bs st1 = Inr st'"
    by (auto split: sum.splits)
  from cleaned_append [OF CleanupIR_insts_cleaned [OF 1] Cons.IH [OF 2]] show ?case by simp
qed

text \<open>
  C10. When CleanupIR lowers a call of a jlcall convention that has no frame argument,
  the call is replaced, and the new call has a null pointer constant as its argument
  array and \<open>0\<close> as its argument count. When no jlcall of the function has a frame
  argument, the scratch alloca made at the function entry (there is one when the pass
  has \<^verbatim>\<open>T_prjlvalue\<close>) is erased.
\<close>

theorem CleanupIR_jlcall_without_frame_args:
  assumes "CleanupIR P classify PtrSize F M = Inr r"
  shows "(\<forall>BB I CI. BB \<in> set (Blocks F) \<and> I \<in> set (insts M BB) \<and> kind M I = CallInst CI
            \<and> lowered_as_jlcall P CI \<and> nframeargs_of CI = 0
          \<longrightarrow> (\<exists>rep. (I, rep) \<in> set (Replacements r)) \<and>
              (\<forall>rep. (I, rep) \<in> set (Replacements r)
                 \<longrightarrow> (\<exists>front stores. rep = JLCallLowered front NullArgArray 0 stores)))
       \<and> ((\<forall>BB I CI. BB \<in> set (Blocks F) \<and> I \<in> set (insts M BB) \<and> kind M I = CallInst CI
              \<and> lowered_as_jlcall P CI \<longrightarrow> nframeargs_of CI = 0)
          \<longrightarrow> Frame r = (if T_prjlvalue P = None then NoFrame else FrameErased))"
proof -
  let ?st0 = "\<lparr> maxframeargs = 0, Replaced = [], ChangesMade = False \<rparr>"
  from assms obtain st where
    run: "CleanupIR_blocks P classify PtrSize M (Blocks F) ?st0 = Inr st" and
    r: "r = \<lparr> Replacements = Replaced st,
              Frame = (if T_prjlvalue P = None then NoFrame
                       else if maxframeargs st = 0 then FrameErased
                       else FrameSized (maxframeargs st)),
              Changed = ChangesMade st \<rparr>"
    by (auto simp: CleanupIR_def split: sum.splits)
  from CleanupIR_blocks_cleaned [OF run]
  have c: "cleaned P M (concat (map (insts M) (Blocks F))) ?st0 st" .
  have "null_args_logged P M (Replaced ?st0)" by (simp add: null_args_logged_def)
  with c have logged: "null_args_logged P M (Replaced st)" by (simp add: cleaned_def)
  from c have present: "\<forall>I CI. I \<in> set (concat (map (insts M) (Blocks F))) \<and> kind M I = CallInst CI
       \<and> lowered_as_jlcall P CI \<longrightarrow> (\<exists>rep. (I, rep) \<in> set (Replaced st))"
    unfolding cleaned_def by blast
  from c have zero: "(\<forall>I CI. I \<in> set (concat (map (insts M) (Blocks F))) \<and> kind M I = CallInst CI
       \<and> lowered_as_jlcall P CI \<longrightarrow> nframeargs_of CI = 0) \<longrightarrow> maxframeargs st = 0"
    unfolding cleaned_def by simp
  have mem: "I \<in> set (concat (map (insts M) (Blocks F)))"
    if "BB \<in> set (Blocks F)" "I \<in> set (insts M BB)" for BB I
    using that by auto
  show ?thesis
  proof (intro conjI allI impI)
    fix BB I CI
    assume a: "BB \<in> set (Blocks F) \<and> I \<in> set (insts M BB) \<and> kind M I = CallInst CI
            \<and> lowered_as_jlcall P CI \<and> nframeargs_of CI = 0"
    with mem have "I \<in> set (concat (map (insts M) (Blocks F)))" by blast
    with present a have "\<exists>rep. (I, rep) \<in> set (Replaced st)" by blast
    then show "\<exists>rep. (I, rep) \<in> set (Replacements r)" unfolding r by simp
    fix rep assume "(I, rep) \<in> set (Replacements r)"
    then have "(I, rep) \<in> set (Replaced st)" unfolding r by simp
    with logged a show "\<exists>front stores. rep = JLCallLowered front NullArgArray 0 stores"
      unfolding null_args_logged_def by blast
  next
    assume a: "\<forall>BB I CI. BB \<in> set (Blocks F) \<and> I \<in> set (insts M BB) \<and> kind M I = CallInst CI
              \<and> lowered_as_jlcall P CI \<longrightarrow> nframeargs_of CI = 0"
    have "\<forall>I CI. I \<in> set (concat (map (insts M) (Blocks F))) \<and> kind M I = CallInst CI
       \<and> lowered_as_jlcall P CI \<longrightarrow> nframeargs_of CI = 0"
      using a by auto
    with zero have "maxframeargs st = 0" by blast
    then show "Frame r = (if T_prjlvalue P = None then NoFrame else FrameErased)"
      unfolding r by simp
  qed
qed

text \<open>A function whose one call is a jlcall without arguments.\<close>

definition jlcall_ir :: IR where
  "jlcall_ir = \<lparr> kind = (\<lambda>_. Constant)
       (0 := CallInst \<lparr> CalledFunction = Some ''g'', ArgOperands = [],
                        BundleOperands = [], CallingConv = JLCALL_CC, canReturnTwice = False \<rparr>,
        1 := ReturnInst []),
     type_of = (\<lambda>_. OtherTy 1)(0 := PointerTy (OtherTy 0) Tracked),
     insts = (\<lambda>_. [])(0 := [0, 1]), parent = (\<lambda>_. 0), fresh = 2 \<rparr>"

theorem CleanupIR_jlcall_without_frame_args_witness:
  "CleanupIR example_pass (\<lambda>_. (0, 0)) 8 single_block jlcall_ir
     = Inr \<lparr> Replacements = [(0, JLCallLowered [] NullArgArray 0 [])],
             Frame = FrameErased, Changed = True \<rparr>
   \<and> (\<exists>front stores. JLCallLowered [] NullArgArray 0 [] = JLCallLowered front NullArgArray 0 stores)"
proof -
  let ?CI = "\<lparr> CalledFunction = Some ''g'', ArgOperands = [],
                        BundleOperands = [], CallingConv = JLCALL_CC, canReturnTwice = False \<rparr>"
  let ?r = "\<lparr> Replacements = [(0, JLCallLowered [] NullArgArray 0 [])],
             Frame = FrameErased, Changed = True \<rparr>"
  have run: "CleanupIR example_pass (\<lambda>_. (0, 0)) 8 single_block jlcall_ir = Inr ?r"
    by (simp add: CleanupIR_def CleanupIR_call_def LowerJLCall_def nframeargs_of_def
          single_block_def jlcall_ir_def example_pass_def JLCALL_CC_def JLCALL_F_CC_def)
  have call: "0 \<in> set (Blocks single_block) \<and> 0 \<in> set (insts jlcall_ir 0)
      \<and> kind jlcall_ir 0 = CallInst ?CI \<and> lowered_as_jlcall example_pass ?CI \<and> nframeargs_of ?CI = 0"
    by (simp add: single_block_def jlcall_ir_def lowered_as_jlcall_def example_pass_def
          nframeargs_of_def JLCALL_CC_def JLCALL_F_CC_def)
  from CleanupIR_jlcall_without_frame_args [OF run, THEN conjunct1, rule_format, OF call, THEN conjunct2]
  have all: "\<forall>rep. (0, rep) \<in> set (Replacements ?r)
          \<longrightarrow> (\<exists>front stores. rep = JLCallLowered front NullArgArray 0 stores)" .
  have "(0, JLCallLowered [] NullArgArray 0 []) \<in> set (Replacements ?r)" by simp
  with all have ex: "\<exists>front stores. JLCallLowered [] NullArgArray 0 [] = JLCallLowered front NullArgArray 0 stores"
    by blast
  show ?thesis by (rule conjI [OF run ex])
qed

end
